theory Spec2Isabelle
  imports Main "HOL-Library.Word" "HOL-Library.Product_Lexorder"
begin

unbundle bit_operations_syntax

section \<open>Data model of squashdelta.cxx\<close>

text \<open>
  Machine integers are words: \<open>uint32_t\<close> is \<open>32 word\<close>, \<open>uint64_t\<close> is
  \<open>64 word\<close>, and \<open>size_t\<close> is taken to be 64 bits wide (an LP64 platform).
  Addition on words wraps around, as the unsigned arithmetic of the source does.
\<close>

type_synonym byte = "8 word"
type_synonym uint16_t = "16 word"
type_synonym uint32_t = "32 word"
type_synonym uint64_t = "64 word"
type_synonym size_t = "64 word"

text \<open>
  \<open>struct compressed_block\<close> (lines 37-43). The field \<open>length\<close> of the source is
  \<open>length_cb\<close> here, since \<open>length\<close> is the list function of HOL.
\<close>

record compressed_block =
  offset :: size_t
  length_cb :: size_t
  uncompressed_length :: size_t
  hash :: uint32_t

text \<open>
  How a call ends when it does not return: a C++ exception (\<open>std::runtime_error\<close> or
  the repository's \<open>IOError\<close>, each with its message), or a failed \<open>assert\<close>, which
  aborts the process and is not an exception that \<open>main\<close> could catch. Assertions are
  modelled as compiled in (no \<open>NDEBUG\<close>).
\<close>

datatype exn = runtime_error string | IOError string

datatype failure = Throw exn | AssertFail string

type_synonym 'a result = "failure + 'a"

definition bind_result :: "'a result \<Rightarrow> ('a \<Rightarrow> 'b result) \<Rightarrow> 'b result" where
  "bind_result r k = (case r of Inl e \<Rightarrow> Inl e | Inr v \<Rightarrow> k v)"

subsection \<open>Declarations of squashfs.hxx that the collector uses\<close>

text \<open>
  Modelled from the spec: \<open>squashfs::block_size::uncompressed\<close>, the flag bit of a
  32-bit block size (squashfs.hxx is not among the sources). The spec calls it the top
  bit of the 32-bit integer.
\<close>

definition block_size_uncompressed :: uint32_t where
  "block_size_uncompressed = 0x80000000"

text \<open>
  Modelled from the spec: the inode union of squashfs.hxx, as \<open>InodeReader::read\<close>
  delivers it. Only the regular (\<open>reg\<close>) and extended regular (\<open>lreg\<close>) variants are
  looked into; of them the collector reads \<open>start_block\<close> and the first
  \<open>block_count(block_size, block_log)\<close> entries of \<open>block_list()\<close>, each entry
  already converted from little-endian to a host \<open>uint32_t\<close>.
\<close>

datatype inode =
    Reg (start_block: uint64_t) (block_list: "uint32_t list")
  | LReg (start_block: uint64_t) (block_list: "uint32_t list")
  | OtherInode

subsection \<open>The block-list walk of one inode (get_blocks, lines 209-229)\<close>

text \<open>
  The body of the loop over \<open>block_list[j]\<close>: from the running offset \<open>pos\<close> and one
  entry it gives the new running offset and the descriptor pushed to
  \<open>compressed_data_blocks\<close>, if any. \<open>uninit\<close> is the content of the local
  \<open>struct compressed_block block\<close> before its fields are assigned: the source leaves
  \<open>uncompressed_length\<close> and \<open>hash\<close> indeterminate here.
\<close>

definition block_list_entry ::
  "compressed_block \<Rightarrow> uint64_t \<Rightarrow> uint32_t \<Rightarrow> (uint64_t \<times> compressed_block option) result" where
  "block_list_entry uninit pos e =
     (if e AND block_size_uncompressed \<noteq> 0 then
        (let len = e AND NOT block_size_uncompressed in
         if len = 0 then Inl (AssertFail ''len != 0'')
         else Inr (pos + ucast len, None))
      else if e \<noteq> 0 then
        (let block = uninit\<lparr>offset := pos, length_cb := ucast e\<rparr>
         in Inr (pos + length_cb block, Some block))
      else Inr (pos, None))"

text \<open>
  The loop itself: \<open>acc\<close> is \<open>compressed_data_blocks\<close>, to which \<open>push_back\<close>
  appends.
\<close>

fun block_list_walk ::
  "compressed_block \<Rightarrow> uint64_t \<Rightarrow> uint32_t list \<Rightarrow> compressed_block list
     \<Rightarrow> (uint64_t \<times> compressed_block list) result" where
  "block_list_walk uninit pos [] acc = Inr (pos, acc)"
| "block_list_walk uninit pos (e # es) acc =
     (case block_list_entry uninit pos e of
        Inl f \<Rightarrow> Inl f
      | Inr (pos', None) \<Rightarrow> block_list_walk uninit pos' es acc
      | Inr (pos', Some block) \<Rightarrow> block_list_walk uninit pos' es (acc @ [block]))"

text \<open>One inode (lines 188-230): only \<open>reg\<close> and \<open>lreg\<close> inodes are walked.\<close>

fun inode_blocks ::
  "compressed_block \<Rightarrow> inode \<Rightarrow> compressed_block list \<Rightarrow> compressed_block list result" where
  "inode_blocks uninit (Reg sblk bl) acc =
     bind_result (block_list_walk uninit sblk bl acc) (\<lambda>(pos, acc'). Inr acc')"
| "inode_blocks uninit (LReg sblk bl) acc =
     bind_result (block_list_walk uninit sblk bl acc) (\<lambda>(pos, acc'). Inr acc')"
| "inode_blocks uninit OtherInode acc = Inr acc"


subsection \<open>Superblock, image and the components that read it\<close>

text \<open>
  Modelled from the spec: \<open>squashfs::super_block\<close> (squashfs.hxx is not among the
  sources), with the fields \<open>get_blocks\<close> reads. \<open>s_magic\<close>, \<open>s_major\<close> and
  \<open>s_minor\<close> keep their names; the other fields carry the prefix \<open>sb_\<close> so that
  \<open>block_size\<close>, \<open>flags\<close> and \<open>compression\<close> stay free for the parameters and the
  patch header of squashdelta.cxx.
\<close>

record super_block =
  s_magic :: uint32_t
  s_major :: uint16_t
  s_minor :: uint16_t
  sb_block_size :: uint32_t
  sb_block_log :: uint16_t
  sb_compression :: uint16_t
  sb_flags :: uint16_t
  sb_inodes :: uint32_t
  sb_fragments :: uint32_t
  sb_inode_table_start :: uint64_t

text \<open>
  Modelled from the spec: the constants \<open>squashfs::magic\<close>,
  \<open>squashfs::compression::lzo\<close> and \<open>squashfs::compression::lz4\<close> of squashfs.hxx
  (the values of the SquashFS 4.0 format). No theorem below depends on the numbers
  beyond their being distinct.
\<close>

definition squashfs_magic :: uint32_t where
  "squashfs_magic = 0x73717368"

definition compression_lzo :: uint16_t where
  "compression_lzo = 3"

definition compression_lz4 :: uint16_t where
  "compression_lz4 = 5"

text \<open>
  Modelled from the spec: a fragment entry as \<open>FragmentTableReader::read\<close> delivers
  it (the field \<open>size\<close> is \<open>fe_size\<close> here, \<open>start_block\<close> is \<open>fe_start_block\<close>).
\<close>

record fragment_entry =
  fe_start_block :: uint64_t
  fe_size :: uint32_t

text \<open>The two classes of compressor.hxx that \<open>get_blocks\<close> can create.\<close>

datatype compressor = LZOCompressor | LZ4Compressor

text \<open>
  An opened image (\<open>MMAPFile &f\<close>) as \<open>get_blocks\<close> sees it: the bytes of the file,
  and what the readers of squashfs.hxx and util.hxx, which are not among the sources,
  deliver from them. These are parameters of the model:
  \<^item> \<open>superblock\<close>: the result of \<open>f.read<squashfs::super_block>()\<close>;
  \<^item> \<open>setup_throws\<close>: the exception \<open>c->setup(...)\<close> throws on this image, if any;
  \<^item> \<open>inode_table\<close>: the inodes that successive calls of \<open>InodeReader::read\<close>
    return, and \<open>ir_block_num\<close>: the value of \<open>ir.block_num()\<close> afterwards;
  \<^item> \<open>fragment_table\<close>, \<open>fr_block_num\<close>, \<open>fr_start_offset\<close>: the same for the
    \<open>FragmentTableReader\<close>.
  A reader asked for more records than the image holds throws.
\<close>

record image =
  contents :: "byte list"
  superblock :: super_block
  setup_throws :: "exn option"
  inode_table :: "inode list"
  ir_block_num :: nat
  fragment_table :: "fragment_entry list"
  fr_block_num :: nat
  fr_start_offset :: nat

text \<open>
  What the build and the machine fix: the two configure switches
  (\<open>ENABLE_LZO\<close>, \<open>ENABLE_LZ4\<close>); the hash function of hash.hxx
  (\<open>murmurhash3 data seed\<close>, the length being that of \<open>data\<close>); the decompressor
  of compressor.hxx (\<open>decompress c src capacity\<close> gives the bytes it produces, or
  throws); the indeterminate content of a local \<open>struct compressed_block\<close> before
  assignment; and the bytes found when the past-the-end node of the \<open>std::list\<close> is
  read as a \<open>compressed_block\<close> (line 328 does read it; the language gives that read
  no meaning).
\<close>

record env =
  enable_lzo :: bool
  enable_lz4 :: bool
  murmurhash3 :: "byte list \<Rightarrow> uint32_t \<Rightarrow> uint32_t"
  decompress :: "compressor \<Rightarrow> byte list \<Rightarrow> nat \<Rightarrow> byte list result"
  uninit_block :: compressed_block
  end_node :: compressed_block

text \<open>
  Modelled from the spec: the byte source \<open>MMAPFile\<close> of util.hxx (section 4.1 of
  the spec): a cursor over the bytes, \<open>seek\<close> from the beginning or from the cursor,
  and bounded reads that fail when the span leaves the file.
\<close>

record MMAPFile =
  f_data :: "byte list"
  f_pos :: nat

definition getlen :: "MMAPFile \<Rightarrow> nat" where
  "getlen f = length (f_data f)"

definition seek_beg :: "MMAPFile \<Rightarrow> nat \<Rightarrow> MMAPFile" where
  "seek_beg f off = f\<lparr>f_pos := off\<rparr>"

definition seek_cur :: "MMAPFile \<Rightarrow> nat \<Rightarrow> MMAPFile" where
  "seek_cur f n = f\<lparr>f_pos := f_pos f + n\<rparr>"

definition read_array :: "MMAPFile \<Rightarrow> nat \<Rightarrow> (byte list \<times> MMAPFile) result" where
  "read_array f n =
     (if f_pos f + n \<le> length (f_data f)
      then Inr (take n (drop (f_pos f) (f_data f)), f\<lparr>f_pos := f_pos f + n\<rparr>)
      else Inl (Throw (runtime_error ''EOF while reading file'')))"

text \<open>
  Modelled from the spec: \<open>MetadataBlockReader::read_input_block\<close> of util.hxx, the
  raw block iterator of section 4.3. A reader is its own cursor over the bytes of the
  image (section 5: several read cursors share the bytes). One call reads the 16-bit
  little-endian header at the cursor; the top bit set means stored uncompressed, the
  other 15 bits are the length of the payload that follows; a zero length is a fatal
  parse error. It returns the payload, the offset of the payload in the file (the
  bytes that \<open>write_unpacked_file\<close> later hands to the decompressor), its length and
  the compressed flag, and leaves the cursor after the payload.
\<close>

definition read_input_block ::
  "byte list \<Rightarrow> nat \<Rightarrow> ((byte list \<times> nat \<times> nat \<times> bool) \<times> nat) result" where
  "read_input_block bytes cur =
     (if length bytes < cur + 2 then Inl (Throw (runtime_error ''EOF while reading file''))
      else
        (let hdr = (ucast (bytes ! cur) :: uint16_t) OR push_bit 8 (ucast (bytes ! (cur + 1)));
             len = unat (hdr AND 0x7FFF);
             compressed = (hdr AND 0x8000 = 0)
         in if len = 0 then Inl (Throw (runtime_error ''Empty metadata block''))
            else if length bytes < cur + 2 + len
            then Inl (Throw (runtime_error ''EOF while reading file''))
            else Inr ((take len (drop (cur + 2) bytes), cur + 2, len, compressed),
                      cur + 2 + len)))"

subsection \<open>get_blocks (lines 129-348)\<close>

text \<open>The \<open>switch\<close> on \<open>sb.compression\<close> (lines 145-169).\<close>

definition select_compressor ::
  "env \<Rightarrow> uint16_t \<Rightarrow> compressor option \<Rightarrow> compressor result" where
  "select_compressor ev cid c =
     (if cid = compression_lzo then
        (if enable_lzo ev then
           (case c of
              None \<Rightarrow> Inr LZOCompressor
            | Some c' \<Rightarrow>
                if c' \<noteq> LZOCompressor
                then Inl (Throw (runtime_error ''The two files use different compressors''))
                else Inr c')
         else Inl (Throw (runtime_error ''LZO compression support disabled at build time'')))
      else if cid = compression_lz4 then
        (if enable_lz4 ev then
           (case c of
              None \<Rightarrow> Inr LZ4Compressor
            | Some c' \<Rightarrow>
                if c' \<noteq> LZ4Compressor
                then Inl (Throw (runtime_error ''The two files use different compressors''))
                else Inr c')
         else Inl (Throw (runtime_error ''LZ4 compression support disabled at build time'')))
      else Inl (Throw (runtime_error ''Unsupported compression algorithm.'')))"

text \<open>
  The loop over \<open>sb.inodes\<close> inodes (lines 186-231): \<open>n\<close> inodes are still to be
  read, the list holds what the reader has left.
\<close>

fun read_inodes ::
  "compressed_block \<Rightarrow> nat \<Rightarrow> inode list \<Rightarrow> compressed_block list
     \<Rightarrow> compressed_block list result" where
  "read_inodes uninit 0 ins acc = Inr acc"
| "read_inodes uninit (Suc n) [] acc = Inl (Throw (runtime_error ''EOF while reading file''))"
| "read_inodes uninit (Suc n) (i # ins) acc =
     (case inode_blocks uninit i acc of
        Inl f \<Rightarrow> Inl f
      | Inr acc' \<Rightarrow> read_inodes uninit n ins acc')"

text \<open>
  The loop that hashes the inode-table metadata blocks (lines 243-262): \<open>n\<close> calls of
  \<open>read_input_block\<close> on the reader whose cursor is \<open>mir\<close>; \<open>acc\<close> is
  \<open>compressed_metadata_blocks\<close>. The cursor is returned with the list.
\<close>

fun hash_inode_blocks ::
  "env \<Rightarrow> byte list \<Rightarrow> nat \<Rightarrow> nat \<Rightarrow> compressed_block list
     \<Rightarrow> (nat \<times> compressed_block list) result" where
  "hash_inode_blocks ev bytes 0 mir acc = Inr (mir, acc)"
| "hash_inode_blocks ev bytes (Suc n) mir acc =
     (case read_input_block bytes mir of
        Inl f \<Rightarrow> Inl f
      | Inr ((data, pos, len, compressed), mir') \<Rightarrow>
          if len = 0 then Inl (AssertFail ''length != 0'')
          else hash_inode_blocks ev bytes n mir'
                 (if compressed
                  then acc @ [(uninit_block ev)\<lparr>offset := of_nat pos, length_cb := of_nat len,
                                                hash := murmurhash3 ev data 0\<rparr>]
                  else acc))"

text \<open>The loop over \<open>sb.fragments\<close> fragment entries (lines 269-282).\<close>

fun read_fragments ::
  "compressed_block \<Rightarrow> nat \<Rightarrow> fragment_entry list \<Rightarrow> compressed_block list
     \<Rightarrow> compressed_block list result" where
  "read_fragments uninit 0 fes acc = Inr acc"
| "read_fragments uninit (Suc n) [] acc =
     Inl (Throw (runtime_error ''EOF while reading file''))"
| "read_fragments uninit (Suc n) (fe # fes) acc =
     (if fe_size fe = 0 then Inl (AssertFail ''fe.size != 0'')
      else read_fragments uninit n fes
             (if fe_size fe AND block_size_uncompressed = 0
              then acc @ [uninit\<lparr>offset := fe_start_block fe, length_cb := ucast (fe_size fe)\<rparr>]
              else acc))"

text \<open>
  The loop that hashes the fragment-table metadata blocks (lines 294-312). Line 293
  constructs the reader \<open>mfr\<close> at \<open>fr.start_offset\<close>, but line 301 calls
  \<open>mir.read_input_block\<close>: the loop reads on from the cursor the inode reader \<open>mir\<close>
  was left at, and \<open>mfr\<close> is never used. The model takes both cursors and, as the
  source does, reads with \<open>mir\<close>. There is no assertion on the length in this loop.
\<close>

fun hash_fragment_blocks ::
  "env \<Rightarrow> byte list \<Rightarrow> nat \<Rightarrow> nat \<Rightarrow> nat \<Rightarrow> compressed_block list
     \<Rightarrow> (nat \<times> compressed_block list) result" where
  "hash_fragment_blocks ev bytes 0 mfr mir acc = Inr (mir, acc)"
| "hash_fragment_blocks ev bytes (Suc n) mfr mir acc =
     (case read_input_block bytes mir of
        Inl f \<Rightarrow> Inl f
      | Inr ((data, pos, len, compressed), mir') \<Rightarrow>
          hash_fragment_blocks ev bytes n mfr mir'
            (if compressed
             then acc @ [(uninit_block ev)\<lparr>offset := of_nat pos, length_cb := of_nat len,
                                           hash := murmurhash3 ev data 0\<rparr>]
             else acc))"


subsection \<open>Sorting and the first deduplication (lines 99-111, 314-339)\<close>

definition sort_by_offset :: "compressed_block \<Rightarrow> compressed_block \<Rightarrow> bool" where
  "sort_by_offset lhs rhs = (offset lhs < offset rhs)"

definition sort_by_len_hash :: "compressed_block \<Rightarrow> compressed_block \<Rightarrow> bool" where
  "sort_by_len_hash lhs rhs =
     (if length_cb lhs = length_cb rhs then hash lhs < hash rhs
      else length_cb lhs < length_cb rhs)"

text \<open>
  \<open>std::list::sort(comp)\<close> is a stable sort: it returns the one permutation that is
  ordered by \<open>comp\<close> and keeps the elements \<open>comp\<close> does not tell apart in their
  order. A stable insertion sort computes the same list.
\<close>

fun insert_sorted :: "('a \<Rightarrow> 'a \<Rightarrow> bool) \<Rightarrow> 'a \<Rightarrow> 'a list \<Rightarrow> 'a list" where
  "insert_sorted lt x [] = [x]"
| "insert_sorted lt x (y # ys) =
     (if lt y x then y # insert_sorted lt x ys else x # y # ys)"

definition list_sort :: "('a \<Rightarrow> 'a \<Rightarrow> bool) \<Rightarrow> 'a list \<Rightarrow> 'a list" where
  "list_sort lt xs = foldr (insert_sorted lt) xs []"

text \<open>
  The walk that hashes the data blocks and drops repeated offsets (lines 322-339).
  The iterator \<open>i\<close> is the head of the last list argument, \<open>kept\<close> is the part of the
  list before \<open>i\<close>, and \<open>j\<close> is \<open>None\<close> while it still is
  \<open>compressed_data_blocks.end()\<close>, \<open>Some b\<close> once it points at the retained
  descriptor \<open>b\<close>. Line 328 reads \<open>(*j).offset\<close> whatever \<open>j\<close> is: when \<open>j\<close> is
  \<open>end()\<close> the model reads \<open>end_node\<close> and counts the event in its last argument,
  so that the result tells how often the past-the-end position was dereferenced.
\<close>

fun hash_dedup_walk ::
  "env \<Rightarrow> MMAPFile \<Rightarrow> compressed_block option \<Rightarrow> compressed_block list
     \<Rightarrow> compressed_block list \<Rightarrow> nat \<Rightarrow> (compressed_block list \<times> nat) result" where
  "hash_dedup_walk ev hf j kept [] n = Inr (kept, n)"
| "hash_dedup_walk ev hf j kept (i # rest) n =
     (let jv = (case j of None \<Rightarrow> end_node ev | Some b \<Rightarrow> b);
          n' = (case j of None \<Rightarrow> Suc n | Some b \<Rightarrow> n)
      in if offset i = offset jv then
           (if length_cb i \<noteq> length_cb jv
            then Inl (AssertFail ''(*i).length == (*j).length'')
            else hash_dedup_walk ev hf j kept rest n')
         else
           (case read_array (seek_beg hf (unat (offset i))) (unat (length_cb i)) of
              Inl f \<Rightarrow> Inl f
            | Inr (bytes, hf') \<Rightarrow>
                (let i' = i\<lparr>hash := murmurhash3 ev bytes 0\<rparr>
                 in hash_dedup_walk ev hf' (Some i') (kept @ [i']) rest n')))"

subsection \<open>get_blocks as a whole\<close>

text \<open>
  Lines 177-347: what \<open>get_blocks\<close> does once the superblock is accepted and the
  compressor is set up. The metadata reader \<open>mir\<close> starts at
  \<open>sb.inode_table_start\<close>; \<open>mfr\<close> would start at \<open>fr.start_offset\<close>. The final
  \<open>splice\<close> puts the metadata descriptors after the data descriptors.
\<close>

definition collect_blocks :: "env \<Rightarrow> image \<Rightarrow> compressed_block list result" where
  "collect_blocks ev f =
     (let s = superblock f in
      bind_result (read_inodes (uninit_block ev) (unat (sb_inodes s)) (inode_table f) [])
        (\<lambda>data1.
      bind_result (hash_inode_blocks ev (contents f) (ir_block_num f)
                     (unat (sb_inode_table_start s)) [])
        (\<lambda>(mir, meta1).
      bind_result (read_fragments (uninit_block ev) (unat (sb_fragments s))
                     (fragment_table f) data1)
        (\<lambda>data2.
      bind_result (hash_fragment_blocks ev (contents f) (fr_block_num f)
                     (fr_start_offset f) mir meta1)
        (\<lambda>(mir', meta2).
      bind_result (hash_dedup_walk ev \<lparr>f_data = contents f, f_pos = 0\<rparr> None []
                     (list_sort sort_by_offset data2) 0)
        (\<lambda>(data3, n). Inr (data3 @ meta2)))))))"

text \<open>
  \<open>get_blocks(f, c, block_size)\<close>: \<open>c\<close> is \<open>None\<close> for the null pointer and
  \<open>block_size\<close> is 0 before the first image. The result holds the returned list and
  the values the two reference parameters have on return.
\<close>

definition get_blocks ::
  "env \<Rightarrow> image \<Rightarrow> compressor option \<Rightarrow> size_t
     \<Rightarrow> (compressed_block list \<times> compressor \<times> size_t) result" where
  "get_blocks ev f c block_size =
     (let s = superblock f in
      if s_magic s \<noteq> squashfs_magic
      then Inl (Throw (runtime_error ''File is not a valid SquashFS image (no magic).''))
      else if s_major s \<noteq> 4 \<or> s_minor s \<noteq> 0
      then Inl (Throw (runtime_error ''File is not SquashFS 4.0''))
      else if block_size \<noteq> 0 \<and> block_size \<noteq> ucast (sb_block_size s)
      then Inl (Throw (runtime_error ''Input files have different block sizes''))
      else
        bind_result (select_compressor ev (sb_compression s) c) (\<lambda>c'.
          case setup_throws f of
            Some e \<Rightarrow> Inl (Throw e)
          | None \<Rightarrow>
              bind_result (collect_blocks ev f) (\<lambda>blocks.
                Inr (blocks, c',
                     if block_size = 0 then ucast (sb_block_size s) else block_size))))"

subsection \<open>main up to the end of collection (lines 426-496)\<close>

text \<open>
  How the process ends: \<open>return n\<close> from \<open>main\<close>, or the abort of a failed assertion.
\<close>

datatype process_end = Exit nat | Aborted

text \<open>
  Both \<open>catch\<close> clauses around a collection print a message and \<open>return 1\<close>; a failed
  assertion is not caught.
\<close>

definition catch_exit :: "'a result \<Rightarrow> process_end + 'a" where
  "catch_exit r =
     (case r of
        Inl (Throw e) \<Rightarrow> Inl (Exit 1)
      | Inl (AssertFail m) \<Rightarrow> Inl Aborted
      | Inr v \<Rightarrow> Inr v)"

text \<open>
  \<open>main\<close> from its start to line 496. \<open>source\<close> and \<open>target\<close> are what
  \<open>MMAPFile::open\<close> gives for the two paths: the opened image, or the exception it
  throws. The result is how the process ends, or the two block lists, the
  compressor and the block size with which \<open>main\<close> goes on.
\<close>

definition main_collect ::
  "env \<Rightarrow> nat \<Rightarrow> exn + image \<Rightarrow> exn + image
     \<Rightarrow> process_end + (compressed_block list \<times> compressed_block list \<times> compressor \<times> size_t)" where
  "main_collect ev argc source target =
     (if argc < 4 then Inl (Exit 1)
      else
        (case source of
           Inl e \<Rightarrow> Inl (Exit 1)
         | Inr source_f \<Rightarrow>
             (case catch_exit (get_blocks ev source_f None 0) of
                Inl pe \<Rightarrow> Inl pe
              | Inr (source_blocks, c, block_size) \<Rightarrow>
                  (case target of
                     Inl e \<Rightarrow> Inl (Exit 1)
                   | Inr target_f \<Rightarrow>
                       (case catch_exit (get_blocks ev target_f (Some c) block_size) of
                          Inl pe \<Rightarrow> Inl pe
                        | Inr (target_blocks, c', block_size') \<Rightarrow>
                            Inr (source_blocks, target_blocks, c', block_size'))))))"

subsection \<open>Cross-image deduplication (main, lines 498-531)\<close>

text \<open>
  The loop with the two iterators \<open>i\<close> and \<open>j\<close>: the arguments are the parts of
  \<open>source_blocks\<close> and \<open>target_blocks\<close> from \<open>i\<close> and from \<open>j\<close> on, the result
  is what is left of these parts when the loop ends. An element the iterator steps
  over stays in its list; \<open>erase(i_st, i)\<close> removes the run the inner \<open>while\<close> has
  stepped over, which \<open>dropWhile\<close> computes.
\<close>

function (sequential) dedup_loop ::
  "compressed_block list \<Rightarrow> compressed_block list
     \<Rightarrow> compressed_block list \<times> compressed_block list" where
  "dedup_loop [] tgt = ([], tgt)"
| "dedup_loop (i # src) [] = (i # src, [])"
| "dedup_loop (i # src) (j # tgt) =
     (if length_cb i < length_cb j then
        (case dedup_loop src (j # tgt) of (s, t) \<Rightarrow> (i # s, t))
      else if length_cb j < length_cb i then
        (case dedup_loop (i # src) tgt of (s, t) \<Rightarrow> (s, j # t))
      else if hash i < hash j then
        (case dedup_loop src (j # tgt) of (s, t) \<Rightarrow> (i # s, t))
      else if hash j < hash i then
        (case dedup_loop (i # src) tgt of (s, t) \<Rightarrow> (s, j # t))
      else
        dedup_loop
          (dropWhile (\<lambda>x. length_cb x = length_cb i \<and> hash x = hash i) (i # src))
          (dropWhile (\<lambda>y. length_cb y = length_cb j \<and> hash y = hash j) (j # tgt)))"
  by pat_completeness auto
termination
  by (relation "measure (\<lambda>(s, t). length s + length t)")
     (auto simp: le_imp_less_Suc add_le_mono length_dropWhile_le intro: less_SucI)

text \<open>Lines 498-531: both lists are sorted by (length, hash), then the loop runs.\<close>

definition cross_dedup ::
  "compressed_block list \<Rightarrow> compressed_block list
     \<Rightarrow> compressed_block list \<times> compressed_block list" where
  "cross_dedup source_blocks target_blocks =
     dedup_loop (list_sort sort_by_len_hash source_blocks)
                (list_sort sort_by_len_hash target_blocks)"


subsection \<open>Expansion: write_unpacked_file (lines 350-399)\<close>

text \<open>
  Modelled from the spec: the \<open>SparseFileWriter\<close> of util.hxx, as the bytes its file
  gives when read back: \<open>write\<close> appends the bytes, \<open>write_sparse n\<close> appends a hole of
  \<open>n\<close> bytes, which reads back as zeros. Failures of the output device are not
  modelled.
\<close>

type_synonym SparseFileWriter = "byte list"

definition write_bytes :: "SparseFileWriter \<Rightarrow> byte list \<Rightarrow> SparseFileWriter" where
  "write_bytes outf bs = outf @ bs"

definition write_sparse :: "SparseFileWriter \<Rightarrow> nat \<Rightarrow> SparseFileWriter" where
  "write_sparse outf n = outf @ replicate n 0"

text \<open>
  The first loop (lines 357-371). The reference parameters keep what was done to them
  when an exception leaves the function, so every loop returns the state it reached
  together with how it ended (\<open>None\<close>: normally).
\<close>

fun passthrough_loop ::
  "size_t \<Rightarrow> SparseFileWriter \<Rightarrow> MMAPFile \<Rightarrow> compressed_block list
     \<Rightarrow> failure option \<times> size_t \<times> SparseFileWriter \<times> MMAPFile" where
  "passthrough_loop prev_offset outf inpf [] = (None, prev_offset, outf, inpf)"
| "passthrough_loop prev_offset outf inpf (i # cb) =
     (if \<not> prev_offset \<le> offset i
      then (Some (AssertFail ''(*i).offset >= prev_offset''), prev_offset, outf, inpf)
      else
        (let pre_length = offset i - prev_offset;
             prev_offset' = offset i + length_cb i
         in case read_array inpf (unat pre_length) of
              Inl f \<Rightarrow> (Some f, prev_offset', outf, inpf)
            | Inr (bytes, inpf1) \<Rightarrow>
                passthrough_loop prev_offset'
                  (write_sparse (write_bytes outf bytes) (unat (length_cb i)))
                  (seek_cur inpf1 (unat (length_cb i))) cb))"

text \<open>
  The second loop (lines 380-391): \<open>dec src capacity\<close> is the call of
  \<open>c.decompress\<close> into the buffer of \<open>block_size\<close> bytes, giving the bytes produced.
  The list returned is \<open>cb\<close> as the loop leaves it.
\<close>

fun payload_loop ::
  "(byte list \<Rightarrow> nat \<Rightarrow> byte list result) \<Rightarrow> nat \<Rightarrow> SparseFileWriter \<Rightarrow> MMAPFile
     \<Rightarrow> compressed_block list
     \<Rightarrow> failure option \<times> SparseFileWriter \<times> MMAPFile \<times> compressed_block list" where
  "payload_loop dec capacity outf inpf [] = (None, outf, inpf, [])"
| "payload_loop dec capacity outf inpf (i # cb) =
     (case read_array (seek_beg inpf (unat (offset i))) (unat (length_cb i)) of
        Inl f \<Rightarrow> (Some f, outf, seek_beg inpf (unat (offset i)), i # cb)
      | Inr (src, inpf1) \<Rightarrow>
          (case dec src capacity of
             Inl f \<Rightarrow> (Some f, outf, inpf1, i # cb)
           | Inr buf \<Rightarrow>
               (case payload_loop dec capacity (write_bytes outf buf) inpf1 cb of
                  (r, outf', inpf', cb') \<Rightarrow>
                    (r, outf', inpf', i\<lparr>uncompressed_length := of_nat (length buf)\<rparr> # cb'))))"

text \<open>
  Lines 354-375: the passthrough region. The cursor of \<open>inf\<close> is set to 0, the first
  loop runs, and the bytes from \<open>prev_offset\<close> to the end of the image are copied;
  their number \<open>inf.getlen() - prev_offset\<close> is computed in \<open>size_t\<close>.
\<close>

definition write_passthrough ::
  "SparseFileWriter \<Rightarrow> MMAPFile \<Rightarrow> compressed_block list
     \<Rightarrow> failure option \<times> SparseFileWriter \<times> MMAPFile" where
  "write_passthrough outf inpf cb =
     (case passthrough_loop 0 outf (seek_beg inpf 0) cb of
        (Some f, prev_offset, outf1, inpf1) \<Rightarrow> (Some f, outf1, inpf1)
      | (None, prev_offset, outf1, inpf1) \<Rightarrow>
          (case read_array inpf1 (unat (of_nat (getlen inpf1) - prev_offset :: size_t)) of
             Inl f \<Rightarrow> (Some f, outf1, inpf1)
           | Inr (tail, inpf2) \<Rightarrow> (None, write_bytes outf1 tail, inpf2)))"

text \<open>
  \<open>write_unpacked_file(outf, inf, cb, c, block_size)\<close>: the passthrough region, then
  the decompressed payloads. The result is how the call ended and the state of
  \<open>outf\<close>, \<open>inf\<close> (here \<open>inpf\<close>) and \<open>cb\<close> at that point.
\<close>

definition write_unpacked_file ::
  "env \<Rightarrow> SparseFileWriter \<Rightarrow> MMAPFile \<Rightarrow> compressed_block list \<Rightarrow> compressor \<Rightarrow> size_t
     \<Rightarrow> failure option \<times> SparseFileWriter \<times> MMAPFile \<times> compressed_block list" where
  "write_unpacked_file ev outf inpf cb c block_size =
     (case write_passthrough outf inpf cb of
        (Some f, outf1, inpf1) \<Rightarrow> (Some f, outf1, inpf1, cb)
      | (None, outf1, inpf1) \<Rightarrow>
          payload_loop (decompress ev c) (unat block_size) outf1 inpf1 cb)"

subsection \<open>The block index: write_block_list (lines 45-97, 401-424)\<close>

record serialized_compressed_block =
  s_offset :: uint64_t
  s_length :: uint32_t
  s_uncompressed_length :: uint32_t

record sqdelta_header =
  magic :: uint32_t
  flags :: uint32_t
  compression :: uint32_t
  block_count :: uint32_t

definition sqdelta_magic :: uint32_t where
  "sqdelta_magic = 0x5371ceb4"

text \<open>
  The byte order of the machine decides what \<open>htonl\<close> does and which bytes a struct
  written from memory puts into the file. \<open>htonl\<close> is the function of the C library:
  the identity on a big-endian machine, the reversal of the four bytes on a
  little-endian one.
\<close>

datatype endian = LittleEndian | BigEndian

definition htonl :: "endian \<Rightarrow> uint32_t \<Rightarrow> uint32_t" where
  "htonl e x =
     (case e of
        BigEndian \<Rightarrow> x
      | LittleEndian \<Rightarrow>
          push_bit 24 (x AND 0xFF) OR push_bit 8 (x AND 0xFF00)
            OR (drop_bit 8 x AND 0xFF00) OR drop_bit 24 x)"

text \<open>\<open>htonll\<close> (lines 80-94); the test on \<open>one\<close> reads the byte order of the machine.\<close>

definition htonll :: "endian \<Rightarrow> uint64_t \<Rightarrow> uint64_t" where
  "htonll e hostlonglong =
     (case e of
        LittleEndian \<Rightarrow>
          push_bit 32 (ucast (htonl e (ucast (hostlonglong AND 0xFFFFFFFF))) :: uint64_t)
            OR ucast (htonl e (ucast (drop_bit 32 hostlonglong)))
      | BigEndian \<Rightarrow> hostlonglong)"

text \<open>The bytes an integer occupies in memory, lowest address first.\<close>

definition mem32 :: "endian \<Rightarrow> uint32_t \<Rightarrow> byte list" where
  "mem32 e x =
     (case e of
        LittleEndian \<Rightarrow> [ucast x, ucast (drop_bit 8 x), ucast (drop_bit 16 x), ucast (drop_bit 24 x)]
      | BigEndian \<Rightarrow> [ucast (drop_bit 24 x), ucast (drop_bit 16 x), ucast (drop_bit 8 x), ucast x])"

definition mem64 :: "endian \<Rightarrow> uint64_t \<Rightarrow> byte list" where
  "mem64 e x =
     (case e of
        LittleEndian \<Rightarrow>
          [ucast x, ucast (drop_bit 8 x), ucast (drop_bit 16 x), ucast (drop_bit 24 x),
           ucast (drop_bit 32 x), ucast (drop_bit 40 x), ucast (drop_bit 48 x),
           ucast (drop_bit 56 x)]
      | BigEndian \<Rightarrow>
          [ucast (drop_bit 56 x), ucast (drop_bit 48 x), ucast (drop_bit 40 x),
           ucast (drop_bit 32 x), ucast (drop_bit 24 x), ucast (drop_bit 16 x),
           ucast (drop_bit 8 x), ucast x])"

text \<open>
  \<open>outf.write<struct T>(v)\<close> for the two packed structs: the fields as they lie in
  memory, in declaration order, without padding.
\<close>

definition write_header :: "endian \<Rightarrow> SparseFileWriter \<Rightarrow> sqdelta_header \<Rightarrow> SparseFileWriter" where
  "write_header e outf h =
     write_bytes outf
       (mem32 e (magic h) @ mem32 e (flags h) @ mem32 e (compression h) @ mem32 e (block_count h))"

definition write_serialized_block ::
  "endian \<Rightarrow> SparseFileWriter \<Rightarrow> serialized_compressed_block \<Rightarrow> SparseFileWriter" where
  "write_serialized_block e outf b =
     write_bytes outf
       (mem64 e (s_offset b) @ mem32 e (s_length b) @ mem32 e (s_uncompressed_length b))"

text \<open>
  \<open>write_block_list(outf, h, cb, at_end)\<close>. \<open>htonl\<close> takes a \<open>uint32_t\<close>: the
  \<open>size_t\<close> values \<open>cb.size()\<close>, \<open>length\<close> and \<open>uncompressed_length\<close> are cut to
  their low 32 bits on the way in.
\<close>

definition write_block_list ::
  "endian \<Rightarrow> SparseFileWriter \<Rightarrow> sqdelta_header \<Rightarrow> compressed_block list \<Rightarrow> bool
     \<Rightarrow> SparseFileWriter" where
  "write_block_list e outf h cb at_end =
     (let h' = h\<lparr>block_count := htonl e (of_nat (length cb))\<rparr>;
          outf1 = (if \<not> at_end then write_header e outf h' else outf);
          outf2 = foldl (\<lambda>out i.
                     write_serialized_block e out
                       \<lparr>s_offset = htonll e (offset i),
                        s_length = htonl e (ucast (length_cb i)),
                        s_uncompressed_length = htonl e (ucast (uncompressed_length i))\<rparr>)
                   outf1 cb
      in if at_end then write_header e outf2 h' else outf2)"

text \<open>
  Modelled from the spec: \<open>Compressor::get_compression_value\<close> of compressor.hxx,
  which echoes the identifier of the codec.
\<close>

definition get_compression_value :: "compressor \<Rightarrow> uint32_t" where
  "get_compression_value c =
     (case c of LZOCompressor \<Rightarrow> ucast compression_lzo | LZ4Compressor \<Rightarrow> ucast compression_lz4)"

text \<open>
  The header \<open>dh\<close> that \<open>main\<close> fills in (lines 563-566); \<open>uninit\<close> is the content of
  the local struct before, of which \<open>block_count\<close> is left as it was.
\<close>

definition main_header :: "endian \<Rightarrow> compressor \<Rightarrow> sqdelta_header \<Rightarrow> sqdelta_header" where
  "main_header e c uninit =
     uninit\<lparr>flags := htonl e 0, magic := htonl e sqdelta_magic,
            compression := htonl e (get_compression_value c)\<rparr>"

text \<open>
  The expanded temporary file of one image (lines 573-577 and 599-603): opened empty,
  filled by \<open>write_unpacked_file\<close>, then the block list with \<open>at_end\<close> left at its
  default \<open>true\<close>. The result is the content of the file and the block list after the
  call, or the failure.
\<close>

definition expanded_file ::
  "env \<Rightarrow> endian \<Rightarrow> sqdelta_header \<Rightarrow> byte list \<Rightarrow> compressed_block list \<Rightarrow> compressor
     \<Rightarrow> size_t \<Rightarrow> (SparseFileWriter \<times> compressed_block list) result" where
  "expanded_file ev e dh_uninit img blocks c block_size =
     (case write_unpacked_file ev [] \<lparr>f_data = img, f_pos = 0\<rparr> blocks c block_size of
        (Some f, outf, inpf, cb) \<Rightarrow> Inl f
      | (None, outf, inpf, cb) \<Rightarrow>
          Inr (write_block_list e outf (main_header e c dh_uninit) cb True, cb))"

text \<open>
  What \<open>main\<close> has written to the patch file when it starts the diff tool (line 623):
  the block list of the source with \<open>at_end = false\<close>.
\<close>

definition patch_file_head ::
  "endian \<Rightarrow> sqdelta_header \<Rightarrow> compressor \<Rightarrow> compressed_block list \<Rightarrow> SparseFileWriter" where
  "patch_file_head e dh_uninit c source_blocks =
     write_block_list e [] (main_header e c dh_uninit) source_blocks False"

section \<open>Reference definitions and example inputs\<close>

subsection \<open>The block-list walk as the specification words it\<close>

text \<open>
  Section 4.4 of the spec, entry by entry: top bit set and low bits nonzero: advance
  by the low bits, record nothing; zero: neither; otherwise: record
  \<open>{offset: running, length: entry}\<close> and advance by the length.
\<close>

definition spec_entry :: "compressed_block \<Rightarrow> uint64_t \<Rightarrow> uint32_t \<Rightarrow> uint64_t \<times> compressed_block option" where
  "spec_entry u running e =
     (if bit e 31 \<and> take_bit 31 e \<noteq> 0 then (running + ucast (take_bit 31 e), None)
      else if e = 0 then (running, None)
      else (running + ucast e, Some (u\<lparr>offset := running, length_cb := ucast e\<rparr>)))"

fun spec_walk ::
  "compressed_block \<Rightarrow> uint64_t \<Rightarrow> uint32_t list \<Rightarrow> compressed_block list
     \<Rightarrow> uint64_t \<times> compressed_block list" where
  "spec_walk u running [] acc = (running, acc)"
| "spec_walk u running (e # es) acc =
     (case spec_entry u running e of
        (running', None) \<Rightarrow> spec_walk u running' es acc
      | (running', Some d) \<Rightarrow> spec_walk u running' es (acc @ [d]))"

subsection \<open>Keys of the cross-image deduplication\<close>

text \<open>
  The key (length, hash) on which section 4.7 matches blocks; pairs are ordered
  lexicographically.
\<close>

definition len_hash :: "compressed_block \<Rightarrow> size_t \<times> uint32_t" where
  "len_hash b = (length_cb b, hash b)"

subsection \<open>The block index as the specification words it\<close>

text \<open>
  Big-endian encodings, most significant byte first, and the value a byte string
  denotes when read as a big-endian number.
\<close>

definition be32 :: "uint32_t \<Rightarrow> byte list" where
  "be32 x = [ucast (drop_bit 24 x), ucast (drop_bit 16 x), ucast (drop_bit 8 x), ucast x]"

definition be64 :: "uint64_t \<Rightarrow> byte list" where
  "be64 x =
     [ucast (drop_bit 56 x), ucast (drop_bit 48 x), ucast (drop_bit 40 x), ucast (drop_bit 32 x),
      ucast (drop_bit 24 x), ucast (drop_bit 16 x), ucast (drop_bit 8 x), ucast x]"

definition be_value :: "byte list \<Rightarrow> nat" where
  "be_value bytes = foldl (\<lambda>a b. 256 * a + unat b) 0 bytes"

text \<open>
  Section 4.8, trailing index: a record is \<open>{offset: u64 BE, length: u32 BE,
  uncompressed_length: u32 BE}\<close>, the header is \<open>{magic = 0x5371CEB4, flags = 0,
  compression, block_count}\<close>, all \<open>u32 BE\<close>. The \<open>u32\<close> fields hold the low 32 bits
  of the values they are given.
\<close>

definition index_record :: "compressed_block \<Rightarrow> byte list" where
  "index_record b =
     be64 (offset b) @ be32 (ucast (length_cb b)) @ be32 (ucast (uncompressed_length b))"

definition index_header :: "compressor \<Rightarrow> nat \<Rightarrow> byte list" where
  "index_header c n =
     be32 0x5371CEB4 @ be32 0 @ be32 (get_compression_value c) @ be32 (of_nat n)"

subsection \<open>Expansion as the specification words it\<close>

text \<open>The bytes of a block as they lie in the image.\<close>

definition on_disk_bytes :: "byte list \<Rightarrow> compressed_block \<Rightarrow> byte list" where
  "on_disk_bytes img b = take (unat (length_cb b)) (drop (unat (offset b)) img)"

text \<open>
  Section 4.6, step 6: a descriptor whose offset equals that of the descriptor
  retained before it (\<open>j\<close>) is dropped, the others are retained; and a descriptor
  with its hash filled in from its on-disk bytes (seed 0).
\<close>

fun drop_repeats :: "compressed_block \<Rightarrow> compressed_block list \<Rightarrow> compressed_block list" where
  "drop_repeats j [] = []"
| "drop_repeats j (i # rest) =
     (if offset i = offset j then drop_repeats j rest else i # drop_repeats i rest)"

definition with_hash :: "env \<Rightarrow> byte list \<Rightarrow> compressed_block \<Rightarrow> compressed_block" where
  "with_hash ev img b = b\<lparr>hash := murmurhash3 ev (on_disk_bytes img b) 0\<rparr>"

text \<open>
  Section 8: the passthrough region is the original image with the bytes of every
  recorded block replaced by zeros. \<open>covered cb k\<close> says that position \<open>k\<close> lies in
  the span of a block of \<open>cb\<close>.
\<close>

definition covered :: "compressed_block list \<Rightarrow> nat \<Rightarrow> bool" where
  "covered cb k = (\<exists>b\<in>set cb. unat (offset b) \<le> k \<and> k < unat (offset b) + unat (length_cb b))"

definition hollow :: "byte list \<Rightarrow> compressed_block list \<Rightarrow> byte list" where
  "hollow img cb = map (\<lambda>k. if covered cb k then 0 else img ! k) [0..<length img]"

text \<open>
  A block list sorted by strictly ascending offsets whose spans do not overlap; a
  block list all of whose spans lie within the image; and the end of the last span.
\<close>

definition blocks_ascending :: "compressed_block list \<Rightarrow> bool" where
  "blocks_ascending cb =
     sorted_wrt (\<lambda>a b. unat (offset a) < unat (offset b)
                   \<and> unat (offset a) + unat (length_cb a) \<le> unat (offset b)) cb"

definition blocks_within :: "byte list \<Rightarrow> compressed_block list \<Rightarrow> bool" where
  "blocks_within img cb = list_all (\<lambda>b. unat (offset b) + unat (length_cb b) \<le> length img) cb"

definition blocks_end :: "compressed_block list \<Rightarrow> nat" where
  "blocks_end cb = (if cb = [] then 0 else unat (offset (last cb)) + unat (length_cb (last cb)))"

text \<open>
  Where the first loop of \<open>write_unpacked_file\<close> stands after the blocks \<open>cb\<close> when
  it started at position \<open>p\<close>.
\<close>

definition seg_end :: "nat \<Rightarrow> compressed_block list \<Rightarrow> nat" where
  "seg_end p cb = (if cb = [] then p else blocks_end cb)"

subsection \<open>Example inputs\<close>

text \<open>
  Concrete inputs at which the theorems below are evaluated. The environment has both
  codecs compiled in; its hash and its decompressor are stand-ins (a polynomial hash
  of the bytes, and a codec that stores the bytes as they are), since hash.hxx and
  compressor.hxx are not among the sources.
\<close>

definition example_block :: compressed_block where
  "example_block = \<lparr>offset = 0, length_cb = 0, uncompressed_length = 0, hash = 0\<rparr>"

definition example_env :: env where
  "example_env =
     \<lparr>enable_lzo = True, enable_lz4 = True,
      murmurhash3 = (\<lambda>bytes seed. foldl (\<lambda>h b. 31 * h + ucast b) seed bytes),
      decompress = (\<lambda>c src capacity. Inr src),
      uninit_block = example_block, end_node = example_block\<rparr>"

text \<open>
  A small image in the layout of the format: the 96 bytes of the superblock, one
  compressed data block of 4 bytes at offset 96, one uncompressed fragment block of 4
  bytes at offset 100, the inode table (one compressed metadata block of 3 bytes, header
  at 104), the directory table (one compressed metadata block of 2 bytes, header at
  109), the fragment table (one compressed metadata block of 4 bytes, header at 113) and
  its index at 119. It holds the root directory and one regular file with one block
  and a fragment.
\<close>

definition example_contents :: "byte list" where
  "example_contents =
     replicate 96 0 @ [0xD0, 0xD1, 0xD2, 0xD3] @ [0xF0, 0xF1, 0xF2, 0xF3]
       @ [3, 0, 0xA0, 0xA1, 0xA2] @ [2, 0, 0xB0, 0xB1] @ [4, 0, 0xC0, 0xC1, 0xC2, 0xC3]
       @ [113, 0, 0, 0, 0, 0, 0, 0]"

definition example_superblock :: super_block where
  "example_superblock =
     \<lparr>s_magic = squashfs_magic, s_major = 4, s_minor = 0, sb_block_size = 4096,
      sb_block_log = 12, sb_compression = compression_lzo, sb_flags = 0, sb_inodes = 2,
      sb_fragments = 1, sb_inode_table_start = 104\<rparr>"

definition example_image :: image where
  "example_image =
     \<lparr>contents = example_contents, superblock = example_superblock, setup_throws = None,
      inode_table = [OtherInode, Reg 96 [4]], ir_block_num = 1,
      fragment_table = [\<lparr>fe_start_block = 100, fe_size = 0x80000004\<rparr>],
      fr_block_num = 1, fr_start_offset = 113\<rparr>"

text \<open>The same bytes read as an image that holds the root directory only.\<close>

definition dir_only_image :: image where
  "dir_only_image =
     example_image\<lparr>superblock := example_superblock\<lparr>sb_inodes := 1, sb_fragments := 0\<rparr>,
                   inode_table := [OtherInode], fragment_table := [], fr_block_num := 0\<rparr>"

text \<open>
  The example image with a block-list entry that is the flag bit alone, and with a
  fragment entry of size zero.
\<close>

definition assert_inode_image :: image where
  "assert_inode_image = example_image\<lparr>inode_table := [OtherInode, Reg 96 [0x80000000]]\<rparr>"

definition assert_fragment_image :: image where
  "assert_fragment_image =
     example_image\<lparr>fragment_table := [\<lparr>fe_start_block = 100, fe_size = 0\<rparr>]\<rparr>"


definition gzip_image :: image where
  "gzip_image = example_image\<lparr>superblock := example_superblock\<lparr>sb_compression := 1\<rparr>\<rparr>"

definition lz4_image :: image where
  "lz4_image = example_image\<lparr>superblock := example_superblock\<lparr>sb_compression := compression_lz4\<rparr>\<rparr>"


text \<open>
  An environment in which the memory read at the past-the-end node happens to hold
  the offset and length of the first data block of the example image.
\<close>

definition clash_env :: env where
  "clash_env = example_env\<lparr>end_node := example_block\<lparr>offset := 96, length_cb := 4\<rparr>\<rparr>"

text \<open>Two block lists sorted by (length, hash), with the key (3, 7) in both.\<close>

definition dedup_source :: "compressed_block list" where
  "dedup_source =
     [\<lparr>offset = 10, length_cb = 3, uncompressed_length = 0, hash = 7\<rparr>,
      \<lparr>offset = 20, length_cb = 3, uncompressed_length = 0, hash = 7\<rparr>,
      \<lparr>offset = 30, length_cb = 4, uncompressed_length = 0, hash = 1\<rparr>]"

definition dedup_target :: "compressed_block list" where
  "dedup_target =
     [\<lparr>offset = 5, length_cb = 2, uncompressed_length = 0, hash = 9\<rparr>,
      \<lparr>offset = 99, length_cb = 3, uncompressed_length = 0, hash = 7\<rparr>,
      \<lparr>offset = 40, length_cb = 5, uncompressed_length = 0, hash = 5\<rparr>]"

text \<open>A block list and an uninitialised header for the block index.\<close>

definition index_blocks :: "compressed_block list" where
  "index_blocks =
     [\<lparr>offset = 96, length_cb = 4, uncompressed_length = 0x1000, hash = 7\<rparr>,
      \<lparr>offset = 0x0102030405060708, length_cb = 0x0A0B0C0D, uncompressed_length = 1, hash = 9\<rparr>]"

definition example_header :: sqdelta_header where
  "example_header = \<lparr>magic = 0, flags = 1, compression = 2, block_count = 3\<rparr>"

text \<open>
  The block list of the example image, with arbitrary values in
  \<open>uncompressed_length\<close>.
\<close>

definition expansion_blocks :: "compressed_block list" where
  "expansion_blocks =
     [\<lparr>offset = 96, length_cb = 4, uncompressed_length = 77, hash = 6404098\<rparr>,
      \<lparr>offset = 106, length_cb = 3, uncompressed_length = 78, hash = 158913\<rparr>,
      \<lparr>offset = 111, length_cb = 2, uncompressed_length = 79, hash = 5633\<rparr>]"

text \<open>
  A block list with one block that starts within the example image (127 bytes) and
  ends after it.
\<close>

definition overrun_blocks :: "compressed_block list" where
  "overrun_blocks = [\<lparr>offset = 120, length_cb = 10, uncompressed_length = 0, hash = 0\<rparr>]"

section \<open>Properties\<close>

subsection \<open>The block-list walk\<close>

lemma bit_top: "bit (0x80000000 :: uint32_t) n = (n = 31)"
proof -
  have "(0x80000000 :: uint32_t) = 2 ^ 31" by simp
  then show ?thesis by (auto simp only: bit_exp_iff possible_bit_word) simp
qed

lemma bit_flag: "bit block_size_uncompressed n = (n = 31)"
  unfolding block_size_uncompressed_def by (rule bit_top)

lemma bit_not_flag: "bit (NOT block_size_uncompressed) n = (n < 31)"
  by (auto simp only: bit_not_iff bit_flag possible_bit_word) simp_all

lemma flag_and: "(e AND block_size_uncompressed \<noteq> 0) = bit e 31" for e :: uint32_t
proof (cases "bit e 31")
  case True
  then have "bit (e AND block_size_uncompressed) 31"
    by (simp add: bit_and_iff bit_flag)
  then have "e AND block_size_uncompressed \<noteq> 0"
    by auto
  with True show ?thesis by simp
next
  case False
  have "e AND block_size_uncompressed = 0"
    by (rule bit_eqI) (use False in \<open>auto simp: bit_and_iff bit_flag\<close>)
  with False show ?thesis by simp
qed

lemma low_bits: "e AND NOT block_size_uncompressed = take_bit 31 e" for e :: uint32_t
  by (rule bit_eqI) (auto simp: bit_and_iff bit_take_bit_iff bit_not_flag)

lemma flag_only: "(bit e 31 \<and> take_bit 31 e = 0) = (e = block_size_uncompressed)" for e :: uint32_t
proof
  assume a: "bit e 31 \<and> take_bit 31 e = 0"
  show "e = block_size_uncompressed"
  proof (rule bit_eqI)
    fix n assume "possible_bit TYPE(uint32_t) n"
    then have n: "n < 32" by simp
    have "\<not> bit (take_bit 31 e) n" using a by simp
    then have "n < 31 \<Longrightarrow> \<not> bit e n" by (simp add: bit_take_bit_iff)
    with a n show "bit e n = bit block_size_uncompressed n"
      by (cases "n = 31") (auto simp: bit_flag)
  qed
next
  assume e: "e = block_size_uncompressed"
  have "take_bit 31 block_size_uncompressed = (0 :: uint32_t)"
    by (rule bit_eqI) (auto simp: bit_take_bit_iff bit_flag)
  with e show "bit e 31 \<and> take_bit 31 e = 0" by (simp add: bit_flag)
qed

lemma block_list_entry_flag:
  "block_list_entry u pos block_size_uncompressed = Inl (AssertFail ''len != 0'')"
proof -
  have "bit block_size_uncompressed 31 \<and> take_bit 31 block_size_uncompressed = 0"
    by (simp add: flag_only)
  then show ?thesis
    using flag_and [of block_size_uncompressed]
    by (simp add: block_list_entry_def low_bits)
qed

lemma block_list_entry_spec:
  "e \<noteq> block_size_uncompressed \<Longrightarrow> block_list_entry u pos e = Inr (spec_entry u pos e)"
  using flag_only [of e]
  by (auto simp: block_list_entry_def spec_entry_def flag_and low_bits Let_def)

lemma block_list_walk_spec:
  "block_size_uncompressed \<notin> set es \<Longrightarrow>
     block_list_walk u pos es acc = Inr (spec_walk u pos es acc)"
proof (induction es arbitrary: pos acc)
  case Nil
  show ?case by simp
next
  case (Cons e es)
  then have "e \<noteq> block_size_uncompressed"
    by auto
  then have e: "block_list_entry u pos e = Inr (spec_entry u pos e)"
    by (rule block_list_entry_spec)
  from Cons show ?case
    by (simp add: e split: prod.splits option.splits)
qed

text \<open>
  Claim C5, as amended. For a regular or extended regular inode, the walk from the
  running offset \<open>start_block\<close> handles a 32-bit entry as follows: top bit set and
  low bits nonzero: the offset advances by the low bits and nothing is recorded; zero:
  neither; top bit clear and entry nonzero: the descriptor with the running offset and
  the entry as length is recorded and the offset advances by that length; top bit set
  and low bits zero: the assertion \<open>len != 0\<close> fails. On a block list without such an
  entry the whole walk is the walk the specification describes.
\<close>

theorem block_list_walk_entries:
  "(bit e 31 \<and> take_bit 31 e \<noteq> 0 \<longrightarrow>
      block_list_entry u pos e = Inr (pos + ucast (take_bit 31 e), None))
   \<and> (e = 0 \<longrightarrow> block_list_entry u pos e = Inr (pos, None))
   \<and> (\<not> bit e 31 \<and> e \<noteq> 0 \<longrightarrow>
      block_list_entry u pos e =
        Inr (pos + ucast e, Some (u\<lparr>offset := pos, length_cb := ucast e\<rparr>)))
   \<and> (bit e 31 \<and> take_bit 31 e = 0 \<longrightarrow>
      block_list_entry u pos e = Inl (AssertFail ''len != 0''))
   \<and> (block_size_uncompressed \<notin> set es \<longrightarrow>
      block_list_walk u pos es acc = Inr (spec_walk u pos es acc))"
proof -
  have z: "\<not> bit (0 :: uint32_t) 31" by simp
  show ?thesis
    using flag_only [of e] z
    by (auto simp: block_list_entry_def flag_and low_bits Let_def block_list_walk_spec)
qed

theorem block_list_walk_entries_witness:
  "block_list_walk example_block 96 [0x80000005, 0, 0x10] [] =
     Inr (117, [example_block\<lparr>offset := 101, length_cb := 16\<rparr>])
   \<and> block_list_entry example_block 96 0x80000000 = Inl (AssertFail ''len != 0'')"
  using block_list_walk_entries [of "0x80000000" example_block 96 "[0x80000005, 0, 0x10]" "[]"]
  by (simp add: spec_entry_def block_size_uncompressed_def)

text \<open>
  The entry \<open>0x80000000\<close> falls under the "otherwise" of the claim as stated, which
  would record a descriptor of that length; the code fails its assertion instead.
\<close>

theorem block_list_entry_counterexample:
  "block_list_entry example_block 96 0x80000000 \<noteq> Inr (spec_entry example_block 96 0x80000000)"
  using block_list_entry_flag [of example_block 96]
  by (simp add: block_size_uncompressed_def)

subsection \<open>Evaluating get_blocks on the example images\<close>

lemmas example_defs = example_image_def example_superblock_def example_env_def example_block_def
  example_contents_def dir_only_image_def

lemmas get_blocks_defs = get_blocks_def collect_blocks_def select_compressor_def bind_result_def
  list_sort_def read_input_block_def read_array_def seek_beg_def sort_by_offset_def
  block_list_entry_def block_size_uncompressed_def Let_def

lemma read_inodes_numeral:
  "read_inodes u (numeral k) ins acc = read_inodes u (Suc (pred_numeral k)) ins acc"
  by (simp add: numeral_eq_Suc)

lemma get_blocks_example:
  "get_blocks example_env example_image None 0 =
     Inr ([\<lparr>offset = 96, length_cb = 4, uncompressed_length = 0, hash = 6404098\<rparr>,
           \<lparr>offset = 106, length_cb = 3, uncompressed_length = 0, hash = 158913\<rparr>,
           \<lparr>offset = 111, length_cb = 2, uncompressed_length = 0, hash = 5633\<rparr>],
          LZOCompressor, 4096)"
  by (simp add: get_blocks_defs example_defs nth_append read_inodes_numeral)

lemma get_blocks_dir_only:
  "get_blocks example_env dir_only_image None 0 =
     Inr ([\<lparr>offset = 106, length_cb = 3, uncompressed_length = 0, hash = 158913\<rparr>],
          LZOCompressor, 4096)"
  by (simp add: get_blocks_defs example_defs nth_append read_inodes_numeral)

subsection \<open>Assertions that abort get_blocks\<close>

text \<open>
  Claim C10. There are inputs on which \<open>get_blocks\<close> ends in a failed assertion, which
  aborts the process, and not in an exception that \<open>main\<close> reports: a block-list entry
  that is the uncompressed flag alone fails \<open>assert(len != 0)\<close>, and a fragment entry
  of size zero fails \<open>assert(fe.size != 0)\<close> and is not skipped.
\<close>

theorem get_blocks_assertion_failures:
  "get_blocks example_env assert_inode_image None 0 = Inl (AssertFail ''len != 0'')
   \<and> main_collect example_env 4 (Inr assert_inode_image) (Inr example_image) = Inl Aborted
   \<and> get_blocks example_env assert_fragment_image None 0 = Inl (AssertFail ''fe.size != 0'')
   \<and> main_collect example_env 4 (Inr assert_fragment_image) (Inr example_image) = Inl Aborted"
  by (simp add: get_blocks_defs example_defs nth_append read_inodes_numeral
      assert_inode_image_def assert_fragment_image_def main_collect_def catch_exit_def)

text \<open>Neither run ends with the exit status 1 of a reported error.\<close>

theorem get_blocks_assertion_failures_witness:
  "main_collect example_env 4 (Inr assert_inode_image) (Inr example_image) \<noteq> Inl (Exit 1)
   \<and> main_collect example_env 4 (Inr assert_fragment_image) (Inr example_image) \<noteq> Inl (Exit 1)"
  using get_blocks_assertion_failures by simp

subsection \<open>Validation of the superblock\<close>




subsection \<open>The codec check\<close>

lemma compression_ids_distinct: "compression_lzo \<noteq> compression_lz4"
  by (simp add: compression_lzo_def compression_lz4_def)

lemma get_blocks_first_image:
  assumes "get_blocks ev f None 0 = Inr (blocks, c0, bs)"
  shows "(sb_compression (superblock f) = compression_lzo \<and> c0 = LZOCompressor
          \<or> sb_compression (superblock f) = compression_lz4 \<and> c0 = LZ4Compressor)
         \<and> bs = ucast (sb_block_size (superblock f))"
  using assms compression_ids_distinct
  by (auto simp: get_blocks_def select_compressor_def bind_result_def Let_def
      split: if_splits option.splits sum.splits)

lemma get_blocks_other_codec:
  assumes "c0 = LZOCompressor \<and> cid \<noteq> compression_lzo \<or> c0 = LZ4Compressor \<and> cid \<noteq> compression_lz4"
    and "sb_compression (superblock f) = cid"
  shows "\<exists>e. get_blocks ev f (Some c0) bs = Inl (Throw e)"
  using assms
  by (auto simp: get_blocks_def select_compressor_def bind_result_def Let_def)

lemma get_blocks_mismatch:
  assumes "s_magic (superblock f) = squashfs_magic" "s_major (superblock f) = 4"
    "s_minor (superblock f) = 0" "bs = ucast (sb_block_size (superblock f))"
    and "sb_compression (superblock f) = compression_lzo \<and> enable_lzo ev \<and> c0 \<noteq> LZOCompressor
         \<or> sb_compression (superblock f) = compression_lz4 \<and> enable_lz4 ev \<and> c0 \<noteq> LZ4Compressor"
  shows "get_blocks ev f (Some c0) bs =
           Inl (Throw (runtime_error ''The two files use different compressors''))"
  using assms compression_ids_distinct
  by (auto simp: get_blocks_def select_compressor_def bind_result_def Let_def)

lemma get_blocks_unsupported:
  assumes "s_magic (superblock f) = squashfs_magic" "s_major (superblock f) = 4"
    "s_minor (superblock f) = 0" "bs = ucast (sb_block_size (superblock f))"
    and "sb_compression (superblock f) \<noteq> compression_lzo"
    and "sb_compression (superblock f) \<noteq> compression_lz4"
  shows "get_blocks ev f c bs =
           Inl (Throw (runtime_error ''Unsupported compression algorithm.''))"
  using assms
  by (simp add: get_blocks_def select_compressor_def bind_result_def Let_def)

text \<open>
  Claim C6, as amended. When the first image has been collected and the compression
  identifier of the second differs from that of the first, the collection of the second
  image ends in an exception before any of its blocks is collected and \<open>main\<close>
  exits with status 1. When the second image passes the checks of magic, version and
  block size, the exception is the codec-mismatch error if its identifier is LZO or
  LZ4 with that codec compiled in (so for a source in LZO and a target in LZ4), and the
  unsupported-compression error if its identifier is neither LZO nor LZ4.
\<close>

theorem codec_mismatch:
  "get_blocks ev sf None 0 = Inr (sblocks, c0, bs)
   \<and> sb_compression (superblock tf) \<noteq> sb_compression (superblock sf) \<longrightarrow>
     (\<exists>e. get_blocks ev tf (Some c0) bs = Inl (Throw e))
     \<and> main_collect ev argc (Inr sf) (Inr tf) = Inl (Exit 1)
     \<and> (s_magic (superblock tf) = squashfs_magic \<and> s_major (superblock tf) = 4
          \<and> s_minor (superblock tf) = 0
          \<and> sb_block_size (superblock tf) = sb_block_size (superblock sf)
          \<and> (sb_compression (superblock tf) = compression_lzo \<and> enable_lzo ev
               \<or> sb_compression (superblock tf) = compression_lz4 \<and> enable_lz4 ev) \<longrightarrow>
        get_blocks ev tf (Some c0) bs =
          Inl (Throw (runtime_error ''The two files use different compressors'')))
     \<and> (s_magic (superblock tf) = squashfs_magic \<and> s_major (superblock tf) = 4
          \<and> s_minor (superblock tf) = 0
          \<and> sb_block_size (superblock tf) = sb_block_size (superblock sf)
          \<and> sb_compression (superblock tf) \<noteq> compression_lzo
          \<and> sb_compression (superblock tf) \<noteq> compression_lz4 \<longrightarrow>
        get_blocks ev tf (Some c0) bs =
          Inl (Throw (runtime_error ''Unsupported compression algorithm.'')))"
proof (intro impI, elim conjE)
  assume src: "get_blocks ev sf None 0 = Inr (sblocks, c0, bs)"
    and differ: "sb_compression (superblock tf) \<noteq> sb_compression (superblock sf)"
  note first = get_blocks_first_image [OF src]
  from first differ
  have other: "c0 = LZOCompressor \<and> sb_compression (superblock tf) \<noteq> compression_lzo
      \<or> c0 = LZ4Compressor \<and> sb_compression (superblock tf) \<noteq> compression_lz4"
    by auto
  from get_blocks_other_codec [OF other refl]
  obtain e where e: "get_blocks ev tf (Some c0) bs = Inl (Throw e)"
    by blast
  have main: "main_collect ev argc (Inr sf) (Inr tf) = Inl (Exit 1)"
    by (simp add: main_collect_def catch_exit_def src e)
  have mism: "get_blocks ev tf (Some c0) bs =
          Inl (Throw (runtime_error ''The two files use different compressors''))"
    if a: "s_magic (superblock tf) = squashfs_magic \<and> s_major (superblock tf) = 4
          \<and> s_minor (superblock tf) = 0
          \<and> sb_block_size (superblock tf) = sb_block_size (superblock sf)
          \<and> (sb_compression (superblock tf) = compression_lzo \<and> enable_lzo ev
               \<or> sb_compression (superblock tf) = compression_lz4 \<and> enable_lz4 ev)"
  proof (rule get_blocks_mismatch)
    show "s_magic (superblock tf) = squashfs_magic" "s_major (superblock tf) = 4"
      "s_minor (superblock tf) = 0"
      using a by simp_all
    show "bs = ucast (sb_block_size (superblock tf))"
      using a first by simp
    show "sb_compression (superblock tf) = compression_lzo \<and> enable_lzo ev \<and> c0 \<noteq> LZOCompressor
         \<or> sb_compression (superblock tf) = compression_lz4 \<and> enable_lz4 ev \<and> c0 \<noteq> LZ4Compressor"
      using a first differ by auto
  qed
  have unsup: "get_blocks ev tf (Some c0) bs =
          Inl (Throw (runtime_error ''Unsupported compression algorithm.''))"
    if a: "s_magic (superblock tf) = squashfs_magic \<and> s_major (superblock tf) = 4
          \<and> s_minor (superblock tf) = 0
          \<and> sb_block_size (superblock tf) = sb_block_size (superblock sf)
          \<and> sb_compression (superblock tf) \<noteq> compression_lzo
          \<and> sb_compression (superblock tf) \<noteq> compression_lz4"
  proof (rule get_blocks_unsupported)
    show "s_magic (superblock tf) = squashfs_magic" "s_major (superblock tf) = 4"
      "s_minor (superblock tf) = 0"
      "sb_compression (superblock tf) \<noteq> compression_lzo"
      "sb_compression (superblock tf) \<noteq> compression_lz4"
      using a by simp_all
    show "bs = ucast (sb_block_size (superblock tf))"
      using a first by simp
  qed
  from e main mism unsup
  show "(\<exists>e. get_blocks ev tf (Some c0) bs = Inl (Throw e))
     \<and> main_collect ev argc (Inr sf) (Inr tf) = Inl (Exit 1)
     \<and> (s_magic (superblock tf) = squashfs_magic \<and> s_major (superblock tf) = 4
          \<and> s_minor (superblock tf) = 0
          \<and> sb_block_size (superblock tf) = sb_block_size (superblock sf)
          \<and> (sb_compression (superblock tf) = compression_lzo \<and> enable_lzo ev
               \<or> sb_compression (superblock tf) = compression_lz4 \<and> enable_lz4 ev) \<longrightarrow>
        get_blocks ev tf (Some c0) bs =
          Inl (Throw (runtime_error ''The two files use different compressors'')))
     \<and> (s_magic (superblock tf) = squashfs_magic \<and> s_major (superblock tf) = 4
          \<and> s_minor (superblock tf) = 0
          \<and> sb_block_size (superblock tf) = sb_block_size (superblock sf)
          \<and> sb_compression (superblock tf) \<noteq> compression_lzo
          \<and> sb_compression (superblock tf) \<noteq> compression_lz4 \<longrightarrow>
        get_blocks ev tf (Some c0) bs =
          Inl (Throw (runtime_error ''Unsupported compression algorithm.'')))"
    by blast
qed

theorem codec_mismatch_witness:
  "get_blocks example_env lz4_image (Some LZOCompressor) 4096 =
     Inl (Throw (runtime_error ''The two files use different compressors''))
   \<and> main_collect example_env 4 (Inr example_image) (Inr lz4_image) = Inl (Exit 1)
   \<and> get_blocks example_env gzip_image (Some LZOCompressor) 4096 =
     Inl (Throw (runtime_error ''Unsupported compression algorithm.''))
   \<and> main_collect example_env 4 (Inr example_image) (Inr gzip_image) = Inl (Exit 1)"
  using codec_mismatch [of example_env example_image _ LZOCompressor 4096 lz4_image 4]
    codec_mismatch [of example_env example_image _ LZOCompressor 4096 gzip_image 4]
    get_blocks_example
  by (simp add: lz4_image_def gzip_image_def example_defs compression_lzo_def
      compression_lz4_def)

text \<open>
  The target's identifier 1 differs from the source's (LZO), yet the error is not the
  codec-mismatch error.
\<close>

theorem unsupported_codec_counterexample:
  "sb_compression (superblock gzip_image) \<noteq> sb_compression (superblock example_image)
   \<and> get_blocks example_env gzip_image (Some LZOCompressor) 4096 =
       Inl (Throw (runtime_error ''Unsupported compression algorithm.''))
   \<and> get_blocks example_env gzip_image (Some LZOCompressor) 4096 \<noteq>
       Inl (Throw (runtime_error ''The two files use different compressors''))"
  by (simp add: get_blocks_def select_compressor_def bind_result_def gzip_image_def
      example_defs compression_lzo_def compression_lz4_def)

subsection \<open>Hashing of the fragment-table metadata blocks\<close>

lemma hash_fragment_blocks_ignores_mfr:
  "hash_fragment_blocks ev bytes n mfr mir acc = hash_fragment_blocks ev bytes n mfr' mir acc"
  by (induction n arbitrary: mir acc) (auto split: sum.splits)

text \<open>
  Claim C1 fails on the code. On the example image the metadata descriptors that
  \<open>get_blocks\<close> returns after the data block are the inode-table block (payload at
  106) and the block that follows it in the file, the directory-table block (payload
  at 111): the second loop has read on with the inode reader. The fragment-table
  block, which a raw read at \<open>fr.start_offset\<close> delivers (payload at 115, 4 bytes,
  compressed), is not in the list.
\<close>

theorem fragment_blocks_hashed_with_inode_reader:
  "get_blocks example_env example_image None 0 =
     Inr ([\<lparr>offset = 96, length_cb = 4, uncompressed_length = 0, hash = 6404098\<rparr>,
           \<lparr>offset = 106, length_cb = 3, uncompressed_length = 0, hash = 158913\<rparr>,
           \<lparr>offset = 111, length_cb = 2, uncompressed_length = 0, hash = 5633\<rparr>],
          LZOCompressor, 4096)
   \<and> read_input_block (contents example_image) (fr_start_offset example_image) =
       Inr (([0xC0, 0xC1, 0xC2, 0xC3], 115, 4, True), 119)"
  by (simp add: get_blocks_defs example_defs nth_append read_inodes_numeral)

theorem fragment_blocks_hashed_with_inode_reader_witness:
  "(case get_blocks example_env example_image None 0 of
      Inl f \<Rightarrow> []
    | Inr (blocks, c, bs) \<Rightarrow> map offset blocks) = [96, 106, 111]"
  using fragment_blocks_hashed_with_inode_reader by simp

subsection \<open>The walk that hashes and deduplicates the data blocks\<close>

lemma read_array_data:
  "read_array f n = Inr (bytes, f') \<Longrightarrow>
     f_data f' = f_data f \<and> bytes = take n (drop (f_pos f) (f_data f))"
  by (auto simp: read_array_def split: if_splits)

text \<open>
  Once \<open>j\<close> points at a retained descriptor the walk does what step 6 says: it drops
  the descriptors that repeat the offset of the one retained before them and fills in
  the hashes of the others; on a list sorted by offset the offsets left are distinct.
  The same holds from the start when the value read at the past-the-end position
  differs from the first offset.
\<close>

lemma drop_repeats_cong: "offset j = offset j' \<Longrightarrow> drop_repeats j rest = drop_repeats j' rest"
  by (induction rest) simp_all

lemma hash_dedup_walk_after_first:
  "hash_dedup_walk ev hf (Some jb) kept rest n = Inr (ks, m) \<Longrightarrow>
     m = n \<and> ks = kept @ map (with_hash ev (f_data hf)) (drop_repeats jb rest)"
proof (induction rest arbitrary: hf jb kept)
  case Nil
  then show ?case by simp
next
  case (Cons i rest)
  show ?case
  proof (cases "offset i = offset jb")
    case True
    with Cons.prems have "hash_dedup_walk ev hf (Some jb) kept rest n = Inr (ks, m)"
      by (simp split: if_splits)
    from Cons.IH [OF this] True show ?thesis by simp
  next
    case False
    with Cons.prems obtain bytes hf'
      where rd: "read_array (seek_beg hf (unat (offset i))) (unat (length_cb i)) = Inr (bytes, hf')"
        and rec: "hash_dedup_walk ev hf' (Some (i\<lparr>hash := murmurhash3 ev bytes 0\<rparr>))
                    (kept @ [i\<lparr>hash := murmurhash3 ev bytes 0\<rparr>]) rest n = Inr (ks, m)"
      by (auto simp: Let_def split: sum.splits)
    from read_array_data [OF rd]
    have d: "f_data hf' = f_data hf" and b: "bytes = on_disk_bytes (f_data hf) i"
      by (simp_all add: seek_beg_def on_disk_bytes_def)
    have same: "drop_repeats (i\<lparr>hash := h\<rparr>) rest = drop_repeats i rest" for h
      by (rule drop_repeats_cong) simp
    from Cons.IH [OF rec] False show ?thesis
      by (simp add: d b with_hash_def same)
  qed
qed

lemma drop_repeats_offsets:
  "sorted (map offset (j # rest)) \<Longrightarrow>
     distinct (map offset (j # drop_repeats j rest))
     \<and> set (map offset (drop_repeats j rest)) \<subseteq> set (map offset rest)"
proof (induction rest arbitrary: j)
  case Nil
  then show ?case by simp
next
  case (Cons i rest)
  show ?case
  proof (cases "offset i = offset j")
    case True
    with Cons.prems have "sorted (map offset (j # rest))" by simp
    from Cons.IH [OF this] True show ?thesis by auto
  next
    case False
    from Cons.prems have s: "sorted (map offset (i # rest))" by simp
    from Cons.prems False have "offset j < offset i" by (simp add: order_less_le)
    with Cons.prems have "offset j \<notin> set (map offset (i # rest))" by auto
    with Cons.IH [OF s] False show ?thesis by auto
  qed
qed


lemma hash_dedup_walk_first_kept:
  assumes "offset (end_node ev) \<noteq> offset b"
    and "hash_dedup_walk ev hf None [] (b # bs) 0 = Inr (ks, m)"
  shows "m = 1 \<and> ks = map (with_hash ev (f_data hf)) (b # drop_repeats b bs)"
proof -
  from assms obtain bytes hf'
    where rd: "read_array (seek_beg hf (unat (offset b))) (unat (length_cb b)) = Inr (bytes, hf')"
      and rec: "hash_dedup_walk ev hf' (Some (b\<lparr>hash := murmurhash3 ev bytes 0\<rparr>))
                  [b\<lparr>hash := murmurhash3 ev bytes 0\<rparr>] bs 1 = Inr (ks, m)"
    by (auto simp: Let_def split: sum.splits)
  from read_array_data [OF rd]
  have d: "f_data hf' = f_data hf" and bytes: "bytes = on_disk_bytes (f_data hf) b"
    by (simp_all add: seek_beg_def on_disk_bytes_def)
  have same: "drop_repeats (b\<lparr>hash := h\<rparr>) bs = drop_repeats b bs" for h
    by (rule drop_repeats_cong) simp
  from hash_dedup_walk_after_first [OF rec] show ?thesis
    by (simp add: d bytes with_hash_def same)
qed

lemma hash_dedup_walk_count_mono:
  "hash_dedup_walk ev hf j kept bs n = Inr (ks, m) \<Longrightarrow> n \<le> m"
proof (induction bs arbitrary: hf j kept n)
  case Nil
  then show ?case by simp
next
  case (Cons b bs)
  then show ?case
    by (fastforce simp: Let_def split: if_splits sum.splits option.splits dest: Suc_leD)
qed

lemma hash_dedup_walk_counts_end:
  "hash_dedup_walk ev hf None kept (b # bs) n = Inr (ks, m) \<Longrightarrow> n < m"
  by (fastforce simp: Let_def split: if_splits sum.splits
      dest: hash_dedup_walk_count_mono)

text \<open>
  Claim C2 fails on the code. On a list with one descriptor the walk reads the
  past-the-end position once (the count in the result), on its first iteration. When
  the memory there happens to hold the offset and the length of the first descriptor,
  that descriptor is dropped although no other descriptor has its offset, and
  \<open>get_blocks\<close> returns the example image's block list without its data block.
\<close>

theorem first_iteration_reads_end:
  "hash_dedup_walk example_env \<lparr>f_data = example_contents, f_pos = 0\<rparr> None []
     [example_block\<lparr>offset := 96, length_cb := 4\<rparr>] 0 =
     Inr ([\<lparr>offset = 96, length_cb = 4, uncompressed_length = 0, hash = 6404098\<rparr>], 1)
   \<and> hash_dedup_walk clash_env \<lparr>f_data = example_contents, f_pos = 0\<rparr> None []
     [example_block\<lparr>offset := 96, length_cb := 4\<rparr>] 0 = Inr ([], 1)
   \<and> get_blocks clash_env example_image None 0 =
     Inr ([\<lparr>offset = 106, length_cb = 3, uncompressed_length = 0, hash = 158913\<rparr>,
           \<lparr>offset = 111, length_cb = 2, uncompressed_length = 0, hash = 5633\<rparr>],
          LZOCompressor, 4096)"
  by (simp add: get_blocks_defs example_defs nth_append read_inodes_numeral clash_env_def)

theorem first_iteration_reads_end_witness:
  "(case hash_dedup_walk clash_env \<lparr>f_data = example_contents, f_pos = 0\<rparr> None []
      [example_block\<lparr>offset := 96, length_cb := 4\<rparr>] 0 of
      Inl f \<Rightarrow> 0
    | Inr (kept, n) \<Rightarrow> n) = 1"
  using first_iteration_reads_end by simp

subsection \<open>Cross-image deduplication\<close>

lemma sort_by_len_hash_iff: "sort_by_len_hash a b = (len_hash a < len_hash b)"
  by (auto simp: sort_by_len_hash_def len_hash_def less_prod_def)

lemma sorted_len_hash_iff:
  "sorted_wrt (\<lambda>a b. \<not> sort_by_len_hash b a) xs = sorted (map len_hash xs)"
  by (simp add: sorted_map sort_by_len_hash_iff not_less)

lemma same_key_iff: "(length_cb x = length_cb i \<and> hash x = hash i) = (len_hash x = len_hash i)"
  by (auto simp: len_hash_def)

lemma dropWhile_run:
  "sorted (map f xs) \<Longrightarrow> \<forall>y\<in>set xs. k \<le> f y \<Longrightarrow>
     dropWhile (\<lambda>y. f y = k) xs = filter (\<lambda>y. f y \<noteq> k) xs" for f :: "'a \<Rightarrow> 'b::linorder"
proof (induction xs)
  case Nil
  show ?case by simp
next
  case (Cons x xs)
  show ?case
  proof (cases "f x = k")
    case True
    with Cons show ?thesis by simp
  next
    case False
    with Cons.prems have "k < f x" by (simp add: order_less_le)
    with Cons.prems have "\<forall>y\<in>set xs. f y \<noteq> k" by auto
    then have "filter (\<lambda>y. f y \<noteq> k) xs = xs" by simp
    with False show ?thesis by simp
  qed
qed

lemma dedup_loop_less:
  "len_hash i < len_hash j \<Longrightarrow>
     dedup_loop (i # src) (j # tgt) = (case dedup_loop src (j # tgt) of (s, t) \<Rightarrow> (i # s, t))"
  by (auto simp: len_hash_def less_prod_def)

lemma dedup_loop_greater:
  "len_hash j < len_hash i \<Longrightarrow>
     dedup_loop (i # src) (j # tgt) = (case dedup_loop (i # src) tgt of (s, t) \<Rightarrow> (s, j # t))"
  by (auto simp: len_hash_def less_prod_def)

lemma dedup_loop_equal:
  "len_hash i = len_hash j \<Longrightarrow>
     dedup_loop (i # src) (j # tgt) =
       dedup_loop (dropWhile (\<lambda>x. len_hash x = len_hash i) src)
                  (dropWhile (\<lambda>y. len_hash y = len_hash i) tgt)"
  by (simp add: same_key_iff) (simp add: len_hash_def)

lemma dedup_loop_filter:
  "sorted (map len_hash src) \<Longrightarrow> sorted (map len_hash tgt) \<Longrightarrow>
     dedup_loop src tgt =
       (filter (\<lambda>b. len_hash b \<notin> len_hash ` set tgt) src,
        filter (\<lambda>b. len_hash b \<notin> len_hash ` set src) tgt)"
proof (induction "length src + length tgt" arbitrary: src tgt rule: less_induct)
  case less
  show ?case
  proof (cases src)
    case Nil
    then show ?thesis by simp
  next
    case src: (Cons i src')
    show ?thesis
    proof (cases tgt)
      case Nil
      with src show ?thesis by simp
    next
      case tgt: (Cons j tgt')
      from less.prems src have ss: "sorted (map len_hash src')"
        and si: "\<forall>x\<in>set src'. len_hash i \<le> len_hash x" by auto
      from less.prems tgt have st: "sorted (map len_hash tgt')"
        and sj: "\<forall>y\<in>set tgt'. len_hash j \<le> len_hash y" by auto
      consider (lt) "len_hash i < len_hash j" | (gt) "len_hash j < len_hash i"
        | (eq) "len_hash i = len_hash j"
        by (meson linorder_neqE)
      then show ?thesis
      proof cases
        case lt
        have IH: "dedup_loop src' tgt =
          (filter (\<lambda>b. len_hash b \<notin> len_hash ` set tgt) src',
           filter (\<lambda>b. len_hash b \<notin> len_hash ` set src') tgt)"
          by (rule less.hyps) (use src ss less.prems in auto)
        have notin: "\<forall>y\<in>set tgt. len_hash y \<noteq> len_hash i"
          using lt sj tgt by auto
        then have a: "len_hash i \<notin> len_hash ` set tgt" by force
        have b: "filter (\<lambda>b. len_hash b \<notin> len_hash ` set src) tgt
               = filter (\<lambda>b. len_hash b \<notin> len_hash ` set src') tgt"
          by (rule filter_cong) (use notin src in auto)
        show ?thesis
          using dedup_loop_less [OF lt, of src' tgt'] IH a b
          by (simp add: src tgt)
      next
        case gt
        have IH: "dedup_loop src tgt' =
          (filter (\<lambda>b. len_hash b \<notin> len_hash ` set tgt') src,
           filter (\<lambda>b. len_hash b \<notin> len_hash ` set src) tgt')"
          by (rule less.hyps) (use tgt st less.prems in auto)
        have notin: "\<forall>x\<in>set src. len_hash x \<noteq> len_hash j"
          using gt si src by auto
        then have a: "len_hash j \<notin> len_hash ` set src" by force
        have b: "filter (\<lambda>b. len_hash b \<notin> len_hash ` set tgt) src
               = filter (\<lambda>b. len_hash b \<notin> len_hash ` set tgt') src"
          by (rule filter_cong) (use notin tgt in auto)
        show ?thesis
          using dedup_loop_greater [OF gt, of src' tgt'] IH a b
          by (simp add: src tgt)
      next
        case eq
        let ?k = "len_hash i"
        let ?s = "filter (\<lambda>x. len_hash x \<noteq> ?k) src'"
        let ?t = "filter (\<lambda>y. len_hash y \<noteq> ?k) tgt'"
        have ds: "dropWhile (\<lambda>x. len_hash x = ?k) src' = ?s"
          by (rule dropWhile_run) (use ss si in auto)
        have dt: "dropWhile (\<lambda>y. len_hash y = ?k) tgt' = ?t"
          by (rule dropWhile_run) (use st sj eq in auto)
        have "length ?s + length ?t \<le> length src' + length tgt'"
          by (intro add_mono length_filter_le)
        then have "length ?s + length ?t < length src + length tgt"
          unfolding src tgt by simp
        moreover have "sorted (map len_hash ?s)" "sorted (map len_hash ?t)"
          using ss st by (simp_all add: sorted_filter)
        ultimately have IH: "dedup_loop ?s ?t =
          (filter (\<lambda>b. len_hash b \<notin> len_hash ` set ?t) ?s,
           filter (\<lambda>b. len_hash b \<notin> len_hash ` set ?s) ?t)"
          by (rule less.hyps)
        have a: "filter (\<lambda>b. len_hash b \<notin> len_hash ` set ?t) ?s
               = filter (\<lambda>b. len_hash b \<notin> len_hash ` set tgt) src"
          using eq by (auto simp: src tgt intro!: filter_cong)
        have b: "filter (\<lambda>b. len_hash b \<notin> len_hash ` set ?s) ?t
               = filter (\<lambda>b. len_hash b \<notin> len_hash ` set src) tgt"
          using eq by (auto simp: src tgt intro!: filter_cong)
        show ?thesis
          using dedup_loop_equal [OF eq, of src' tgt'] IH
          by (simp only: src tgt ds dt) (simp only: a b flip: src tgt)
      qed
    qed
  qed
qed

lemma set_insert_sorted: "set (insert_sorted lt x xs) = insert x (set xs)"
  by (induction xs) auto

lemma insert_sorted_sorted:
  "sorted (map len_hash xs) \<Longrightarrow> sorted (map len_hash (insert_sorted sort_by_len_hash x xs))"
  by (induction xs) (auto simp: sort_by_len_hash_iff set_insert_sorted)

lemma list_sort_sorted: "sorted (map len_hash (list_sort sort_by_len_hash xs))"
  unfolding list_sort_def by (induction xs) (simp_all add: insert_sorted_sorted)

lemma set_list_sort: "set (list_sort lt xs) = set xs"
  unfolding list_sort_def by (induction xs) (simp_all add: set_insert_sorted)

lemma cross_dedup_filter:
  "cross_dedup source_blocks target_blocks =
     (filter (\<lambda>b. len_hash b \<notin> len_hash ` set target_blocks)
        (list_sort sort_by_len_hash source_blocks),
      filter (\<lambda>b. len_hash b \<notin> len_hash ` set source_blocks)
        (list_sort sort_by_len_hash target_blocks))"
  by (simp add: cross_dedup_def dedup_loop_filter list_sort_sorted set_list_sort)

text \<open>
  Claim C3. For two block lists sorted by (length, hash), as \<open>sort_by_len_hash\<close>
  orders them, the loop removes from each list exactly the entries whose (length,
  hash) key occurs in the other list, whatever their offsets; no key is left in both
  lists; and running the loop with the two lists swapped gives the same two lists,
  swapped.
\<close>

theorem dedup_loop_mutual_duplicates:
  assumes "sorted_wrt (\<lambda>a b. \<not> sort_by_len_hash b a) src"
    and "sorted_wrt (\<lambda>a b. \<not> sort_by_len_hash b a) tgt"
  shows "dedup_loop src tgt =
           (filter (\<lambda>b. len_hash b \<notin> len_hash ` set tgt) src,
            filter (\<lambda>b. len_hash b \<notin> len_hash ` set src) tgt)
         \<and> len_hash ` set (fst (dedup_loop src tgt)) \<inter> len_hash ` set (snd (dedup_loop src tgt)) = {}
         \<and> dedup_loop tgt src = (snd (dedup_loop src tgt), fst (dedup_loop src tgt))"
proof -
  from assms have s: "sorted (map len_hash src)" and t: "sorted (map len_hash tgt)"
    by (simp_all add: sorted_len_hash_iff)
  have a: "dedup_loop src tgt =
           (filter (\<lambda>b. len_hash b \<notin> len_hash ` set tgt) src,
            filter (\<lambda>b. len_hash b \<notin> len_hash ` set src) tgt)"
    by (rule dedup_loop_filter [OF s t])
  have b: "dedup_loop tgt src =
           (filter (\<lambda>b. len_hash b \<notin> len_hash ` set src) tgt,
            filter (\<lambda>b. len_hash b \<notin> len_hash ` set tgt) src)"
    by (rule dedup_loop_filter [OF t s])
  have c: "len_hash ` set (filter (\<lambda>b. len_hash b \<notin> len_hash ` set tgt) src)
        \<inter> len_hash ` set (filter (\<lambda>b. len_hash b \<notin> len_hash ` set src) tgt) = {}"
    by auto
  show ?thesis
    unfolding a b using c by simp
qed

theorem dedup_loop_mutual_duplicates_witness:
  "dedup_loop dedup_source dedup_target =
     ([\<lparr>offset = 30, length_cb = 4, uncompressed_length = 0, hash = 1\<rparr>],
      [\<lparr>offset = 5, length_cb = 2, uncompressed_length = 0, hash = 9\<rparr>,
       \<lparr>offset = 40, length_cb = 5, uncompressed_length = 0, hash = 5\<rparr>])
   \<and> dedup_loop dedup_target dedup_source =
     ([\<lparr>offset = 5, length_cb = 2, uncompressed_length = 0, hash = 9\<rparr>,
       \<lparr>offset = 40, length_cb = 5, uncompressed_length = 0, hash = 5\<rparr>],
      [\<lparr>offset = 30, length_cb = 4, uncompressed_length = 0, hash = 1\<rparr>])"
  using dedup_loop_mutual_duplicates [of dedup_source dedup_target]
  by (simp add: dedup_source_def dedup_target_def sort_by_len_hash_def len_hash_def)

subsection \<open>Expansion\<close>

lemma payload_loop_frame:
  "payload_loop dec cap outf inpf cb = (r, outf', inpf', cb') \<Longrightarrow>
     list_all2 (\<lambda>b b'. b' = b \<or>
         (\<exists>buf. dec (on_disk_bytes (f_data inpf) b) cap = Inr buf
            \<and> b' = b\<lparr>uncompressed_length := of_nat (length buf)\<rparr>)) cb cb'
     \<and> (r = None \<longrightarrow>
         list_all2 (\<lambda>b b'. \<exists>buf. dec (on_disk_bytes (f_data inpf) b) cap = Inr buf
            \<and> b' = b\<lparr>uncompressed_length := of_nat (length buf)\<rparr>) cb cb')"
proof (induction cb arbitrary: outf inpf r outf' inpf' cb')
  case Nil
  then show ?case by simp
next
  case (Cons i cb)
  show ?case
  proof (cases "read_array (seek_beg inpf (unat (offset i))) (unat (length_cb i))")
    case (Inl f)
    with Cons.prems show ?thesis
      by (auto simp: list_all2_refl list.rel_refl)
  next
    case (Inr p)
    obtain src inpf1 where p: "p = (src, inpf1)" by (cases p)
    from read_array_data [OF Inr [unfolded p]]
    have d: "f_data inpf1 = f_data inpf" and src: "src = on_disk_bytes (f_data inpf) i"
      by (simp_all add: seek_beg_def on_disk_bytes_def)
    show ?thesis
    proof (cases "dec src cap")
      case (Inl f)
      with Cons.prems Inr p show ?thesis
        by (auto simp: list.rel_refl)
    next
      case buf: (Inr buf)
      obtain r2 outf2 inpf2 cb2
        where rec: "payload_loop dec cap (write_bytes outf buf) inpf1 cb = (r2, outf2, inpf2, cb2)"
        by (metis prod_cases4)
      from Cons.IH [OF rec] d
      have IH: "list_all2 (\<lambda>b b'. b' = b \<or>
         (\<exists>buf. dec (on_disk_bytes (f_data inpf) b) cap = Inr buf
            \<and> b' = b\<lparr>uncompressed_length := of_nat (length buf)\<rparr>)) cb cb2
         \<and> (r2 = None \<longrightarrow>
         list_all2 (\<lambda>b b'. \<exists>buf. dec (on_disk_bytes (f_data inpf) b) cap = Inr buf
            \<and> b' = b\<lparr>uncompressed_length := of_nat (length buf)\<rparr>) cb cb2)"
        by simp
      from Cons.prems Inr p buf rec
      have res: "r = r2" "cb' = i\<lparr>uncompressed_length := of_nat (length buf)\<rparr> # cb2"
        by simp_all
      show ?thesis
        using IH buf src by (auto simp: res)
    qed
  qed
qed

lemma passthrough_loop_data:
  "passthrough_loop prev_offset outf inpf cb = (r, prev', outf', inpf') \<Longrightarrow>
     f_data inpf' = f_data inpf"
proof (induction cb arbitrary: prev_offset outf inpf)
  case Nil
  then show ?case by simp
next
  case (Cons i cb)
  show ?case
  proof (cases "prev_offset \<le> offset i")
    case False
    with Cons.prems show ?thesis by simp
  next
    case True
    show ?thesis
    proof (cases "read_array inpf (unat (offset i - prev_offset))")
      case (Inl f)
      with Cons.prems True show ?thesis by (simp add: Let_def)
    next
      case (Inr p)
      obtain bytes inpf1 where p: "p = (bytes, inpf1)" by (cases p)
      from read_array_data [OF Inr [unfolded p]] have "f_data inpf1 = f_data inpf" by simp
      moreover from Cons.prems True Inr p
      have "f_data inpf' = f_data (seek_cur inpf1 (unat (length_cb i)))"
        by (auto simp: Let_def dest: Cons.IH)
      ultimately show ?thesis by (simp add: seek_cur_def)
    qed
  qed
qed

lemma write_passthrough_data:
  "write_passthrough outf inpf cb = (r, outf', inpf') \<Longrightarrow> f_data inpf' = f_data inpf"
  by (auto simp: write_passthrough_def seek_beg_def
      split: prod.splits option.splits sum.splits
      dest!: passthrough_loop_data read_array_data)

text \<open>
  Claim C9. However \<open>write_unpacked_file\<close> ends, the block list it leaves has the
  length and the order of the one it was given, every descriptor keeps its offset,
  length and hash, and a descriptor is either untouched or has its
  \<open>uncompressed_length\<close> set to the number of bytes the decompressor produced from
  its on-disk bytes; when the call returns normally, every descriptor has been filled
  in that way.
\<close>

theorem write_unpacked_file_frame:
  "write_unpacked_file ev outf inpf cb c bs = (r, outf', inpf', cb') \<longrightarrow>
     length cb' = length cb \<and> map offset cb' = map offset cb
     \<and> map length_cb cb' = map length_cb cb \<and> map hash cb' = map hash cb
     \<and> list_all2 (\<lambda>b b'. b' = b \<or>
           (\<exists>buf. decompress ev c (on_disk_bytes (f_data inpf) b) (unat bs) = Inr buf
              \<and> b' = b\<lparr>uncompressed_length := of_nat (length buf)\<rparr>)) cb cb'
     \<and> (r = None \<longrightarrow>
           list_all2 (\<lambda>b b'. \<exists>buf. decompress ev c (on_disk_bytes (f_data inpf) b) (unat bs) = Inr buf
              \<and> b' = b\<lparr>uncompressed_length := of_nat (length buf)\<rparr>) cb cb')"
proof
  assume w: "write_unpacked_file ev outf inpf cb c bs = (r, outf', inpf', cb')"
  obtain r1 outf1 inpf1 where pt: "write_passthrough outf inpf cb = (r1, outf1, inpf1)"
    by (metis prod_cases3)
  note d = write_passthrough_data [OF pt]
  have all: "list_all2 (\<lambda>b b'. b' = b \<or>
           (\<exists>buf. decompress ev c (on_disk_bytes (f_data inpf) b) (unat bs) = Inr buf
              \<and> b' = b\<lparr>uncompressed_length := of_nat (length buf)\<rparr>)) cb cb'
     \<and> (r = None \<longrightarrow>
           list_all2 (\<lambda>b b'. \<exists>buf. decompress ev c (on_disk_bytes (f_data inpf) b) (unat bs) = Inr buf
              \<and> b' = b\<lparr>uncompressed_length := of_nat (length buf)\<rparr>) cb cb')"
  proof (cases r1)
    case None
    with w pt have "payload_loop (decompress ev c) (unat bs) outf1 inpf1 cb = (r, outf', inpf', cb')"
      by (simp add: write_unpacked_file_def)
    from payload_loop_frame [OF this] d show ?thesis by simp
  next
    case (Some f)
    with w pt have "cb' = cb" "r = Some f"
      by (simp_all add: write_unpacked_file_def)
    then show ?thesis by (simp add: list.rel_refl)
  qed
  then have rel: "list_all2 (\<lambda>b b'. offset b' = offset b \<and> length_cb b' = length_cb b
      \<and> hash b' = hash b) cb cb'"
    by (auto elim!: list_all2_mono)
  have "length cb' = length cb"
    using rel by (simp add: list_all2_lengthD)
  moreover have "map offset cb' = map offset cb" "map length_cb cb' = map length_cb cb"
    "map hash cb' = map hash cb"
    using rel by (induction cb cb' rule: list_all2_induct) simp_all
  ultimately show "length cb' = length cb \<and> map offset cb' = map offset cb
     \<and> map length_cb cb' = map length_cb cb \<and> map hash cb' = map hash cb
     \<and> list_all2 (\<lambda>b b'. b' = b \<or>
           (\<exists>buf. decompress ev c (on_disk_bytes (f_data inpf) b) (unat bs) = Inr buf
              \<and> b' = b\<lparr>uncompressed_length := of_nat (length buf)\<rparr>)) cb cb'
     \<and> (r = None \<longrightarrow>
           list_all2 (\<lambda>b b'. \<exists>buf. decompress ev c (on_disk_bytes (f_data inpf) b) (unat bs) = Inr buf
              \<and> b' = b\<lparr>uncompressed_length := of_nat (length buf)\<rparr>) cb cb')"
    using all by simp
qed

lemmas expansion_defs = write_unpacked_file_def write_passthrough_def read_array_def seek_beg_def
  seek_cur_def write_bytes_def write_sparse_def getlen_def Let_def

lemma write_unpacked_file_example:
  "write_unpacked_file example_env [] \<lparr>f_data = example_contents, f_pos = 0\<rparr>
     expansion_blocks LZOCompressor 4096 =
     (None,
      replicate 96 0 @ replicate 4 0 @ [0xF0, 0xF1, 0xF2, 0xF3, 3, 0] @ replicate 3 0 @ [2, 0]
        @ replicate 2 0 @ [4, 0, 0xC0, 0xC1, 0xC2, 0xC3, 113, 0, 0, 0, 0, 0, 0, 0,
        0xD0, 0xD1, 0xD2, 0xD3, 0xA0, 0xA1, 0xA2, 0xB0, 0xB1],
      \<lparr>f_data = example_contents, f_pos = 113\<rparr>,
      [\<lparr>offset = 96, length_cb = 4, uncompressed_length = 4, hash = 6404098\<rparr>,
       \<lparr>offset = 106, length_cb = 3, uncompressed_length = 3, hash = 158913\<rparr>,
       \<lparr>offset = 111, length_cb = 2, uncompressed_length = 2, hash = 5633\<rparr>])"
  by (simp add: expansion_defs expansion_blocks_def example_contents_def example_env_def)

theorem write_unpacked_file_frame_witness:
  "map offset [\<lparr>offset = 96, length_cb = 4, uncompressed_length = 4, hash = 6404098\<rparr>,
       \<lparr>offset = 106, length_cb = 3, uncompressed_length = 3, hash = 158913\<rparr>,
       \<lparr>offset = 111, length_cb = 2, uncompressed_length = 2, hash = 5633\<rparr>]
     = map offset expansion_blocks
   \<and> list_all2 (\<lambda>b b'. \<exists>buf. decompress example_env LZOCompressor (on_disk_bytes example_contents b) 4096 = Inr buf
              \<and> b' = b\<lparr>uncompressed_length := of_nat (length buf)\<rparr>) expansion_blocks
       [\<lparr>offset = 96, length_cb = 4, uncompressed_length = 4, hash = 6404098\<rparr>,
       \<lparr>offset = 106, length_cb = 3, uncompressed_length = 3, hash = 158913\<rparr>,
       \<lparr>offset = 111, length_cb = 2, uncompressed_length = 2, hash = 5633\<rparr>]"
  using write_unpacked_file_frame [THEN mp, OF write_unpacked_file_example]
  by simp

subsection \<open>The passthrough region\<close>

lemma map_nth_upt: "b \<le> length xs \<Longrightarrow> map ((!) xs) [a..<b] = take (b - a) (drop a xs)"
  by (rule nth_equalityI) (auto simp: min_def)

lemma upt_split: "a \<le> b \<Longrightarrow> b \<le> c \<Longrightarrow> [a..<c] = [a..<b] @ [b..<c]"
  by (metis le_Suc_ex upt_add_eq_append)

lemma blocks_ascending_Cons:
  "blocks_ascending (i # cb) =
     ((\<forall>b\<in>set cb. unat (offset i) < unat (offset b)
          \<and> unat (offset i) + unat (length_cb i) \<le> unat (offset b))
      \<and> blocks_ascending cb)"
  by (simp add: blocks_ascending_def)

lemma seg_end_ge: "\<forall>b\<in>set cb. p \<le> unat (offset b) \<Longrightarrow> p \<le> seg_end p cb"
  by (auto simp: seg_end_def blocks_end_def intro: trans_le_add1)

lemma seg_end_Cons:
  "seg_end p (i # cb) = seg_end (unat (offset i) + unat (length_cb i)) cb"
  by (simp add: seg_end_def blocks_end_def)

lemma seg_end_within: "blocks_within img cb \<Longrightarrow> p \<le> length img \<Longrightarrow> seg_end p cb \<le> length img"
  by (auto simp: seg_end_def blocks_end_def blocks_within_def list_all_iff)

lemma passthrough_loop_region:
  assumes "length img < 2 ^ 64" and "blocks_ascending cb" and "blocks_within img cb"
    and "\<forall>b\<in>set cb. p \<le> unat (offset b)" and "p \<le> length img"
  shows "passthrough_loop (of_nat p) outf \<lparr>f_data = img, f_pos = p\<rparr> cb =
           (None, of_nat (seg_end p cb),
            outf @ map (\<lambda>k. if covered cb k then 0 else img ! k) [p..<seg_end p cb],
            \<lparr>f_data = img, f_pos = seg_end p cb\<rparr>)"
  using assms
proof (induction cb arbitrary: p outf)
  case Nil
  then show ?case by (simp add: seg_end_def)
next
  case (Cons i cb)
  let ?o = "unat (offset i)" and ?l = "unat (length_cb i)"
  let ?E = "seg_end (?o + ?l) cb"
  from Cons.prems have po: "p \<le> ?o" and ol: "?o + ?l \<le> length img"
    and asc: "blocks_ascending cb" and within: "blocks_within img cb"
    and after: "\<forall>b\<in>set cb. ?o + ?l \<le> unat (offset b)"
    by (auto simp: blocks_ascending_Cons blocks_within_def)
  from Cons.prems ol have small: "p < 2 ^ 64" "?o + ?l < 2 ^ 64" by auto
  have up: "unat (of_nat p :: size_t) = p"
    using small by (simp add: unat_of_nat)
  have le: "(of_nat p :: size_t) \<le> offset i"
    using po by (simp add: word_le_nat_alt up)
  have pre: "unat (offset i - of_nat p) = ?o - p"
    using le by (simp add: unat_sub up)
  have nxt: "offset i + length_cb i = of_nat (?o + ?l)"
    by simp
  have rd: "read_array \<lparr>f_data = img, f_pos = p\<rparr> (?o - p) =
      Inr (take (?o - p) (drop p img), \<lparr>f_data = img, f_pos = ?o\<rparr>)"
    using po ol by (simp add: read_array_def)
  have IH: "passthrough_loop (of_nat (?o + ?l))
              (outf @ take (?o - p) (drop p img) @ replicate ?l 0)
              \<lparr>f_data = img, f_pos = ?o + ?l\<rparr> cb =
           (None, of_nat ?E,
            (outf @ take (?o - p) (drop p img) @ replicate ?l 0)
              @ map (\<lambda>k. if covered cb k then 0 else img ! k) [?o + ?l..<?E],
            \<lparr>f_data = img, f_pos = ?E\<rparr>)"
    by (rule Cons.IH) (use Cons.prems asc within after ol in auto)
  have E: "?o + ?l \<le> ?E"
    by (rule seg_end_ge [OF after])
  have split: "[p..<?E] = [p..<?o] @ [?o..<?o + ?l] @ [?o + ?l..<?E]"
    using po E upt_split [of p ?o ?E] upt_split [of ?o "?o + ?l" ?E] by simp
  have s1: "map (\<lambda>k. if covered (i # cb) k then 0 else img ! k) [p..<?o]
          = take (?o - p) (drop p img)"
  proof -
    have "\<not> covered (i # cb) k" if "k < ?o" for k
      using that after by (auto simp: covered_def)
    then have "map (\<lambda>k. if covered (i # cb) k then 0 else img ! k) [p..<?o]
          = map ((!) img) [p..<?o]"
      by simp
    also have "\<dots> = take (?o - p) (drop p img)"
      by (rule map_nth_upt) (use ol in simp)
    finally show ?thesis .
  qed
  have s2: "map (\<lambda>k. if covered (i # cb) k then 0 else img ! k) [?o..<?o + ?l]
          = replicate ?l 0"
  proof -
    have "covered (i # cb) k" if "?o \<le> k" "k < ?o + ?l" for k
      using that by (auto simp: covered_def)
    then have "map (\<lambda>k. if covered (i # cb) k then 0 else img ! k) [?o..<?o + ?l]
          = map (\<lambda>k. 0) [?o..<?o + ?l]"
      by simp
    then show ?thesis by (simp add: map_replicate_const)
  qed
  have s3: "map (\<lambda>k. if covered (i # cb) k then 0 else img ! k) [?o + ?l..<?E]
          = map (\<lambda>k. if covered cb k then 0 else img ! k) [?o + ?l..<?E]"
  proof -
    have "covered (i # cb) k = covered cb k" if "?o + ?l \<le> k" for k
      using that by (auto simp: covered_def)
    then show ?thesis by simp
  qed
  have step: "passthrough_loop (of_nat p) outf \<lparr>f_data = img, f_pos = p\<rparr> (i # cb) =
      passthrough_loop (offset i + length_cb i)
        (outf @ take (?o - p) (drop p img) @ replicate ?l 0)
        \<lparr>f_data = img, f_pos = ?o + ?l\<rparr> cb"
    using le by (simp add: Let_def pre rd write_bytes_def write_sparse_def seek_cur_def)
  have region: "map (\<lambda>k. if covered (i # cb) k then 0 else img ! k) [p..<?E]
      = take (?o - p) (drop p img) @ replicate ?l 0
          @ map (\<lambda>k. if covered cb k then 0 else img ! k) [?o + ?l..<?E]"
    by (simp only: split map_append s1 s2 s3)
  show ?case
    unfolding step nxt IH seg_end_Cons region by simp
qed


lemma blocks_end_max:
  "blocks_ascending cb \<Longrightarrow> b \<in> set cb \<Longrightarrow>
     unat (offset b) + unat (length_cb b) \<le> blocks_end cb"
proof (induction cb)
  case Nil
  then show ?case by simp
next
  case (Cons i cb)
  show ?case
  proof (cases "cb = []")
    case True
    with Cons.prems show ?thesis by (simp add: blocks_end_def)
  next
    case False
    then have e: "blocks_end (i # cb) = blocks_end cb"
      by (simp add: blocks_end_def)
    show ?thesis
    proof (cases "b = i")
      case True
      from False have "last cb \<in> set cb" by simp
      with Cons.prems have "unat (offset i) + unat (length_cb i) \<le> unat (offset (last cb))"
        by (simp add: blocks_ascending_Cons)
      also have "\<dots> \<le> blocks_end cb"
        using False by (simp add: blocks_end_def)
      finally show ?thesis by (simp add: e True)
    next
      case False
      with Cons show ?thesis by (simp add: e blocks_ascending_Cons)
    qed
  qed
qed

lemma not_covered_after: "blocks_ascending cb \<Longrightarrow> blocks_end cb \<le> k \<Longrightarrow> \<not> covered cb k"
  using blocks_end_max by (fastforce simp: covered_def)

lemma write_passthrough_hollow:
  assumes len: "length img < 2 ^ 64" and asc: "blocks_ascending cb"
    and within: "blocks_within img cb"
  shows "write_passthrough outf \<lparr>f_data = img, f_pos = p\<rparr> cb =
           (None, outf @ hollow img cb, \<lparr>f_data = img, f_pos = length img\<rparr>)"
proof -
  let ?E = "blocks_end cb"
  let ?f = "\<lambda>k. if covered cb k then 0 else img ! k"
  have E0: "seg_end 0 cb = ?E"
    by (simp add: seg_end_def blocks_end_def)
  have loop: "passthrough_loop 0 outf \<lparr>f_data = img, f_pos = 0\<rparr> cb =
      (None, of_nat ?E, outf @ map ?f [0..<?E], \<lparr>f_data = img, f_pos = ?E\<rparr>)"
    using passthrough_loop_region [OF len asc within, of 0 outf] by (simp add: E0)
  have El: "?E \<le> length img"
    using seg_end_within [OF within, of 0] by (simp add: E0)
  have "(of_nat ?E :: size_t) \<le> of_nat (length img)"
    using El len by (simp add: word_le_nat_alt unat_of_nat)
  then have n: "unat (of_nat (length img) - of_nat ?E :: size_t) = length img - ?E"
    using El len by (simp add: unat_sub unat_of_nat)
  have rd: "read_array \<lparr>f_data = img, f_pos = ?E\<rparr> (length img - ?E) =
      Inr (drop ?E img, \<lparr>f_data = img, f_pos = length img\<rparr>)"
    using El by (simp add: read_array_def)
  have "map ?f [?E..<length img] = map ((!) img) [?E..<length img]"
    using not_covered_after [OF asc] by simp
  also have "\<dots> = drop ?E img"
    by (simp add: map_nth_upt)
  finally have tail: "map ?f [?E..<length img] = drop ?E img" .
  have "hollow img cb = map ?f [0..<?E] @ map ?f [?E..<length img]"
    unfolding hollow_def using upt_split [of 0 ?E "length img"] El by simp
  then have h: "hollow img cb = map ?f [0..<?E] @ drop ?E img"
    by (simp only: tail)
  show ?thesis
    by (simp add: write_passthrough_def seek_beg_def loop getlen_def n rd write_bytes_def h)
qed

lemma hollow_tail:
  assumes asc: "blocks_ascending cb"
  shows "drop (blocks_end cb) (hollow img cb) = drop (blocks_end cb) img"
proof -
  let ?E = "blocks_end cb"
  have "drop ?E (hollow img cb) = map (\<lambda>k. if covered cb k then 0 else img ! k) [?E..<length img]"
    by (simp add: hollow_def drop_map)
  also have "\<dots> = map ((!) img) [?E..<length img]"
    using not_covered_after [OF asc] by simp
  also have "\<dots> = drop ?E img"
    by (simp add: map_nth_upt)
  finally show ?thesis .
qed

lemma passthrough_loop_cursor_out:
  "length img < q \<Longrightarrow> cb \<noteq> [] \<Longrightarrow>
     fst (passthrough_loop prev outf \<lparr>f_data = img, f_pos = q\<rparr> cb) \<noteq> None"
  by (cases cb) (auto simp: read_array_def Let_def)

lemma passthrough_loop_within:
  assumes "length img < 2 ^ 64"
    and "passthrough_loop prev outf \<lparr>f_data = img, f_pos = q\<rparr> cb = (None, prev', outf', inpf')"
    and "f_pos inpf' \<le> length img" and "q = unat prev"
  shows "blocks_within img cb"
  using assms
proof (induction cb arbitrary: prev outf q)
  case Nil
  show ?case by (simp add: blocks_within_def)
next
  case (Cons i cb)
  let ?o = "unat (offset i)" and ?l = "unat (length_cb i)"
  from Cons.prems(2) have le: "prev \<le> offset i"
    by (auto split: if_splits)
  then have pre: "unat (offset i - prev) = ?o - q" and qo: "q \<le> ?o"
    using Cons.prems(4) by (simp_all add: unat_sub word_le_nat_alt)
  from Cons.prems(2) le pre have o: "?o \<le> length img"
    using qo by (auto simp: Let_def read_array_def split: if_splits)
  then have rd: "read_array \<lparr>f_data = img, f_pos = q\<rparr> (?o - q) =
      Inr (take (?o - q) (drop q img), \<lparr>f_data = img, f_pos = ?o\<rparr>)"
    using qo by (simp add: read_array_def)
  from Cons.prems(2) le
  have rec: "passthrough_loop (offset i + length_cb i)
        (outf @ take (?o - q) (drop q img) @ replicate ?l 0)
        \<lparr>f_data = img, f_pos = ?o + ?l\<rparr> cb = (None, prev', outf', inpf')"
    by (simp add: Let_def pre rd write_bytes_def write_sparse_def seek_cur_def)
  have ol: "?o + ?l \<le> length img"
  proof (cases "cb = []")
    case True
    with rec Cons.prems(3) show ?thesis by auto
  next
    case False
    show ?thesis
    proof (rule ccontr)
      assume "\<not> ?o + ?l \<le> length img"
      then have "length img < ?o + ?l" by simp
      from passthrough_loop_cursor_out [OF this False] rec show False
        by (metis fst_conv)
    qed
  qed
  with Cons.prems(1) have "?o + ?l < 2 ^ 64" by simp
  then have "unat (offset i + length_cb i) = ?o + ?l"
    by (simp add: unat_add_lem [THEN iffD1])
  then have "blocks_within img cb"
    using Cons.IH [OF Cons.prems(1) rec Cons.prems(3)] by simp
  with ol show ?case by (simp add: blocks_within_def)
qed

lemma write_passthrough_within:
  assumes "length img < 2 ^ 64"
    and "fst (write_passthrough outf \<lparr>f_data = img, f_pos = p\<rparr> cb) = None"
  shows "blocks_within img cb"
proof -
  obtain r prev' outf1 inpf1
    where loop: "passthrough_loop 0 outf \<lparr>f_data = img, f_pos = 0\<rparr> cb = (r, prev', outf1, inpf1)"
    by (metis prod_cases4)
  from passthrough_loop_data [OF loop] have d: "f_data inpf1 = img" by simp
  from assms(2) loop have r: "r = None"
    by (cases r) (simp_all add: write_passthrough_def seek_beg_def)
  from assms(2) loop r
  have "\<exists>v. read_array inpf1 (unat (of_nat (getlen inpf1) - prev' :: size_t)) = Inr v"
    by (auto simp: write_passthrough_def seek_beg_def split: sum.splits)
  then have "f_pos inpf1 \<le> length img"
    using d by (auto simp: read_array_def split: if_splits)
  with passthrough_loop_within [OF assms(1) loop [unfolded r]] show ?thesis
    by simp
qed

lemma payload_loop_appends:
  "payload_loop dec cap outf inpf cb = (r, outf', inpf', cb') \<Longrightarrow> \<exists>pl. outf' = outf @ pl"
proof (induction cb arbitrary: outf inpf r outf' inpf' cb')
  case Nil
  then show ?case by simp
next
  case (Cons i cb)
  show ?case
  proof (cases "read_array (seek_beg inpf (unat (offset i))) (unat (length_cb i))")
    case (Inl f)
    with Cons.prems show ?thesis by auto
  next
    case (Inr p)
    obtain src inpf1 where p: "p = (src, inpf1)" by (cases p)
    show ?thesis
    proof (cases "dec src cap")
      case (Inl f)
      with Cons.prems Inr p show ?thesis by auto
    next
      case buf: (Inr buf)
      obtain r2 outf2 inpf2 cb2
        where rec: "payload_loop dec cap (write_bytes outf buf) inpf1 cb = (r2, outf2, inpf2, cb2)"
        by (metis prod_cases4)
      from Cons.IH [OF rec] obtain pl where "outf2 = write_bytes outf buf @ pl" by blast
      moreover from Cons.prems Inr p buf rec have "outf' = outf2" by simp
      ultimately show ?thesis by (simp add: write_bytes_def)
    qed
  qed
qed

text \<open>
  Claim C4, as amended. For every image (of a length that \<open>size_t\<close> can hold) and
  every block list sorted by strictly ascending, non-overlapping offsets whose blocks
  all lie within the image: \<open>write_unpacked_file\<close> writes as its passthrough region
  the image with the bytes of every listed block replaced by zeros (holes read back as
  zeros), of the length of the image, whose bytes after the last block are those of
  the image, and the file it leaves starts with that region. The passthrough region is
  written without failure only when the blocks lie within the image.
\<close>

theorem write_unpacked_file_passthrough:
  assumes "length img < 2 ^ 64" and "blocks_ascending cb"
  shows "(blocks_within img cb \<longrightarrow>
            write_passthrough [] \<lparr>f_data = img, f_pos = p\<rparr> cb =
              (None, hollow img cb, \<lparr>f_data = img, f_pos = length img\<rparr>)
            \<and> drop (blocks_end cb) (hollow img cb) = drop (blocks_end cb) img
            \<and> (\<exists>payloads. fst (snd (write_unpacked_file ev [] \<lparr>f_data = img, f_pos = p\<rparr> cb c bs))
                  = hollow img cb @ payloads))
         \<and> (fst (write_passthrough [] \<lparr>f_data = img, f_pos = p\<rparr> cb) = None \<longrightarrow>
              blocks_within img cb)
         \<and> length (hollow img cb) = length img"
proof -
  have a: "write_passthrough [] \<lparr>f_data = img, f_pos = p\<rparr> cb =
              (None, hollow img cb, \<lparr>f_data = img, f_pos = length img\<rparr>)"
    if "blocks_within img cb"
    using write_passthrough_hollow [OF assms that, of "[]" p] by simp
  have b: "\<exists>payloads. fst (snd (write_unpacked_file ev [] \<lparr>f_data = img, f_pos = p\<rparr> cb c bs))
                  = hollow img cb @ payloads"
    if "blocks_within img cb"
  proof -
    obtain r outf' inpf' cb'
      where pl: "payload_loop (decompress ev c) (unat bs) (hollow img cb)
                  \<lparr>f_data = img, f_pos = length img\<rparr> cb = (r, outf', inpf', cb')"
      by (metis prod_cases4)
    from payload_loop_appends [OF pl] obtain x where "outf' = hollow img cb @ x" by blast
    then show ?thesis
      by (simp add: write_unpacked_file_def a [OF that] pl)
  qed
  show ?thesis
    using a b hollow_tail [OF assms(2), of img] write_passthrough_within [OF assms(1), of "[]" p cb]
    by (simp add: hollow_def)
qed

lemma hollow_example:
  "hollow example_contents expansion_blocks =
     replicate 96 0 @ [0, 0, 0, 0, 0xF0, 0xF1, 0xF2, 0xF3, 3, 0, 0, 0, 0, 2, 0, 0, 0,
        4, 0, 0xC0, 0xC1, 0xC2, 0xC3, 113, 0, 0, 0, 0, 0, 0, 0]"
  by code_simp

theorem write_unpacked_file_passthrough_witness:
  "write_passthrough [] \<lparr>f_data = example_contents, f_pos = 0\<rparr> expansion_blocks =
     (None,
      replicate 96 0 @ [0, 0, 0, 0, 0xF0, 0xF1, 0xF2, 0xF3, 3, 0, 0, 0, 0, 2, 0, 0, 0,
        4, 0, 0xC0, 0xC1, 0xC2, 0xC3, 113, 0, 0, 0, 0, 0, 0, 0],
      \<lparr>f_data = example_contents, f_pos = 127\<rparr>)
   \<and> drop 113 (hollow example_contents expansion_blocks) = drop 113 example_contents"
proof -
  have len: "length example_contents < 2 ^ 64" and l: "length example_contents = 127"
    by (simp_all add: example_contents_def)
  have asc: "blocks_ascending expansion_blocks"
    by (simp add: blocks_ascending_def expansion_blocks_def)
  have within: "blocks_within example_contents expansion_blocks"
    by (simp add: blocks_within_def expansion_blocks_def l)
  have e: "blocks_end expansion_blocks = 113"
    by (simp add: blocks_end_def expansion_blocks_def)
  from write_unpacked_file_passthrough [OF len asc, of 0 example_env LZOCompressor 4096] within
  have "write_passthrough [] \<lparr>f_data = example_contents, f_pos = 0\<rparr> expansion_blocks =
          (None, hollow example_contents expansion_blocks,
           \<lparr>f_data = example_contents, f_pos = length example_contents\<rparr>)
        \<and> drop (blocks_end expansion_blocks) (hollow example_contents expansion_blocks)
            = drop (blocks_end expansion_blocks) example_contents"
    by blast
  then show ?thesis
    by (simp only: hollow_example l e)
qed

text \<open>
  A single block is an ascending, non-overlapping list. When it reaches past the end
  of the image the call fails with the end-of-file error at the copy of the tail,
  after 130 bytes have been written for an image of 127: the region is not the
  hollowed image and its size is not that of the image.
\<close>

theorem passthrough_overrun_counterexample:
  "blocks_ascending overrun_blocks
   \<and> length example_contents = 127
   \<and> fst (write_passthrough [] \<lparr>f_data = example_contents, f_pos = 0\<rparr> overrun_blocks) =
       Some (Throw (runtime_error ''EOF while reading file''))
   \<and> length (fst (snd (write_passthrough [] \<lparr>f_data = example_contents, f_pos = 0\<rparr>
                          overrun_blocks))) = 130
   \<and> fst (snd (write_passthrough [] \<lparr>f_data = example_contents, f_pos = 0\<rparr> overrun_blocks))
       \<noteq> hollow example_contents overrun_blocks
   \<and> fst (write_unpacked_file example_env [] \<lparr>f_data = example_contents, f_pos = 0\<rparr>
            overrun_blocks LZOCompressor 4096) =
       Some (Throw (runtime_error ''EOF while reading file''))"
proof -
  have asc: "blocks_ascending overrun_blocks"
    by (simp add: blocks_ascending_def overrun_blocks_def)
  have len: "length example_contents = 127"
    by (simp add: example_contents_def)
  have l: "length (hollow example_contents overrun_blocks) = 127"
    by (simp add: hollow_def len)
  have w: "write_passthrough [] \<lparr>f_data = example_contents, f_pos = 0\<rparr> overrun_blocks =
      (Some (Throw (runtime_error ''EOF while reading file'')),
       take 120 example_contents @ replicate 10 0,
       \<lparr>f_data = example_contents, f_pos = 130\<rparr>)"
    by (simp add: write_passthrough_def overrun_blocks_def read_array_def seek_beg_def
        seek_cur_def write_bytes_def write_sparse_def getlen_def Let_def len)
  have n: "length (take 120 example_contents @ replicate 10 (0 :: byte)) = 130"
    by (simp add: len)
  have ne: "take 120 example_contents @ replicate 10 0 \<noteq> hollow example_contents overrun_blocks"
  proof
    assume "take 120 example_contents @ replicate 10 0 = hollow example_contents overrun_blocks"
    then have "length (take 120 example_contents @ replicate 10 (0 :: byte))
        = length (hollow example_contents overrun_blocks)"
      by (rule arg_cong)
    then show False
      unfolding n l by simp
  qed
  have f1: "fst (write_passthrough [] \<lparr>f_data = example_contents, f_pos = 0\<rparr> overrun_blocks) =
       Some (Throw (runtime_error ''EOF while reading file''))"
    unfolding w by simp
  have f2: "length (fst (snd (write_passthrough [] \<lparr>f_data = example_contents, f_pos = 0\<rparr>
                          overrun_blocks))) = 130"
    unfolding w using n by simp
  have f3: "fst (snd (write_passthrough [] \<lparr>f_data = example_contents, f_pos = 0\<rparr> overrun_blocks))
       \<noteq> hollow example_contents overrun_blocks"
    unfolding w using ne by simp
  have f4: "fst (write_unpacked_file example_env [] \<lparr>f_data = example_contents, f_pos = 0\<rparr>
            overrun_blocks LZOCompressor 4096) =
       Some (Throw (runtime_error ''EOF while reading file''))"
    unfolding write_unpacked_file_def w by simp
  show ?thesis
    using asc len f1 f2 f3 f4 by (intro conjI)
qed

subsection \<open>The block index\<close>

lemma mask_low_byte: "(0xFF :: uint32_t) = mask 8"
  by (simp add: mask_eq_exp_minus_1)
lemma mask_second_byte: "(0xFF00 :: uint32_t) = push_bit 8 (mask 8)"
  by (simp add: mask_eq_exp_minus_1 push_bit_eq_mult)
lemma mask_low_word: "(0xFFFFFFFF :: uint64_t) = mask 32"
  by (simp add: mask_eq_exp_minus_1)

lemma htonl_little_bit:
  "bit (htonl LittleEndian x) n =
     (n < 32 \<and> (if n < 8 then bit x (n + 24) else if n < 16 then bit x (n + 8)
                else if n < 24 then bit x (n - 8) else bit x (n - 24)))"
  unfolding htonl_def endian.case mask_low_byte mask_second_byte
  apply (simp only: bit_simps)
  apply (auto simp: add.commute dest: bit_imp_le_length)
  done

lemma mem32_htonl: "mem32 e (htonl e x) = be32 x"
proof (cases e)
  case BigEndian
  then show ?thesis by (simp add: mem32_def htonl_def be32_def)
next
  case LittleEndian
  have "ucast (htonl LittleEndian x) = (ucast (drop_bit 24 x) :: byte)"
    by (rule bit_eqI) (auto simp: bit_simps htonl_little_bit add.commute)
  moreover have "ucast (drop_bit 8 (htonl LittleEndian x)) = (ucast (drop_bit 16 x) :: byte)"
    by (rule bit_eqI) (auto simp: bit_simps htonl_little_bit add.commute)
  moreover have "ucast (drop_bit 16 (htonl LittleEndian x)) = (ucast (drop_bit 8 x) :: byte)"
    by (rule bit_eqI) (auto simp: bit_simps htonl_little_bit add.commute)
  moreover have "ucast (drop_bit 24 (htonl LittleEndian x)) = (ucast x :: byte)"
    by (rule bit_eqI) (auto simp: bit_simps htonl_little_bit add.commute)
  ultimately show ?thesis
    by (simp add: LittleEndian mem32_def be32_def)
qed

lemma htonll_little_bit:
  "bit (htonll LittleEndian x) n =
     (n < 64 \<and> (if n < 8 then bit x (n + 56) else if n < 16 then bit x (n + 40)
                else if n < 24 then bit x (n + 24) else if n < 32 then bit x (n + 8)
                else if n < 40 then bit x (n - 8) else if n < 48 then bit x (n - 24)
                else if n < 56 then bit x (n - 40) else bit x (n - 56)))"
  unfolding htonll_def endian.case mask_low_word
  apply (simp only: bit_simps htonl_little_bit)
  apply (auto simp: add.commute dest: bit_imp_le_length)
  done

lemma mem64_htonll: "mem64 e (htonll e x) = be64 x"
proof (cases e)
  case BigEndian
  then show ?thesis by (simp add: mem64_def htonll_def be64_def)
next
  case LittleEndian
  have "ucast (htonll LittleEndian x) = (ucast (drop_bit 56 x) :: byte)"
    by (rule bit_eqI) (auto simp: bit_simps htonll_little_bit add.commute)
  moreover have "ucast (drop_bit 8 (htonll LittleEndian x)) = (ucast (drop_bit 48 x) :: byte)"
    by (rule bit_eqI) (auto simp: bit_simps htonll_little_bit add.commute)
  moreover have "ucast (drop_bit 16 (htonll LittleEndian x)) = (ucast (drop_bit 40 x) :: byte)"
    by (rule bit_eqI) (auto simp: bit_simps htonll_little_bit add.commute)
  moreover have "ucast (drop_bit 24 (htonll LittleEndian x)) = (ucast (drop_bit 32 x) :: byte)"
    by (rule bit_eqI) (auto simp: bit_simps htonll_little_bit add.commute)
  moreover have "ucast (drop_bit 32 (htonll LittleEndian x)) = (ucast (drop_bit 24 x) :: byte)"
    by (rule bit_eqI) (auto simp: bit_simps htonll_little_bit add.commute)
  moreover have "ucast (drop_bit 40 (htonll LittleEndian x)) = (ucast (drop_bit 16 x) :: byte)"
    by (rule bit_eqI) (auto simp: bit_simps htonll_little_bit add.commute)
  moreover have "ucast (drop_bit 48 (htonll LittleEndian x)) = (ucast (drop_bit 8 x) :: byte)"
    by (rule bit_eqI) (auto simp: bit_simps htonll_little_bit add.commute)
  moreover have "ucast (drop_bit 56 (htonll LittleEndian x)) = (ucast x :: byte)"
    by (rule bit_eqI) (auto simp: bit_simps htonll_little_bit add.commute)
  ultimately show ?thesis
    by (simp add: LittleEndian mem64_def be64_def)
qed


lemma unat_low_byte:
  "unat w = 256 * unat (drop_bit 8 w) + unat (ucast w :: byte)" for w :: "'a::len word"
proof -
  have "unat (drop_bit 8 w) = unat w div 256"
    by (simp only: unat_drop_bit_eq) (simp add: drop_bit_eq_div)
  moreover have "unat (ucast w :: byte) = unat w mod 256"
    by (simp add: unsigned_ucast_eq take_bit_eq_mod)
  ultimately show ?thesis by simp
qed

lemma be_value_be32: "be_value (be32 x) = unat x"
proof -
  have z: "drop_bit 32 x = 0" by (simp add: drop_bit_word_beyond)
  have "unat x = 256 * unat (drop_bit 8 x) + unat (ucast x :: byte)"
    by (rule unat_low_byte)
  also have "unat (drop_bit 8 x) = 256 * unat (drop_bit 16 x) + unat (ucast (drop_bit 8 x) :: byte)"
    using unat_low_byte [of "drop_bit 8 x"] by simp
  also have "unat (drop_bit 16 x) = 256 * unat (drop_bit 24 x) + unat (ucast (drop_bit 16 x) :: byte)"
    using unat_low_byte [of "drop_bit 16 x"] by simp
  also have "unat (drop_bit 24 x) = unat (ucast (drop_bit 24 x) :: byte)"
    using unat_low_byte [of "drop_bit 24 x"] z by simp
  finally show ?thesis
    by (simp add: be_value_def be32_def algebra_simps)
qed

lemma be_value_be64: "be_value (be64 x) = unat x"
proof -
  have z: "drop_bit 64 x = 0" by (simp add: drop_bit_word_beyond)
  have "unat x = 256 * unat (drop_bit 8 x) + unat (ucast x :: byte)"
    by (rule unat_low_byte)
  also have "unat (drop_bit 8 x) = 256 * unat (drop_bit 16 x) + unat (ucast (drop_bit 8 x) :: byte)"
    using unat_low_byte [of "drop_bit 8 x"] by simp
  also have "unat (drop_bit 16 x) = 256 * unat (drop_bit 24 x) + unat (ucast (drop_bit 16 x) :: byte)"
    using unat_low_byte [of "drop_bit 16 x"] by simp
  also have "unat (drop_bit 24 x) = 256 * unat (drop_bit 32 x) + unat (ucast (drop_bit 24 x) :: byte)"
    using unat_low_byte [of "drop_bit 24 x"] by simp
  also have "unat (drop_bit 32 x) = 256 * unat (drop_bit 40 x) + unat (ucast (drop_bit 32 x) :: byte)"
    using unat_low_byte [of "drop_bit 32 x"] by simp
  also have "unat (drop_bit 40 x) = 256 * unat (drop_bit 48 x) + unat (ucast (drop_bit 40 x) :: byte)"
    using unat_low_byte [of "drop_bit 40 x"] by simp
  also have "unat (drop_bit 48 x) = 256 * unat (drop_bit 56 x) + unat (ucast (drop_bit 48 x) :: byte)"
    using unat_low_byte [of "drop_bit 48 x"] by simp
  also have "unat (drop_bit 56 x) = unat (ucast (drop_bit 56 x) :: byte)"
    using unat_low_byte [of "drop_bit 56 x"] z by simp
  finally show ?thesis
    by (simp add: be_value_def be64_def algebra_simps)
qed

lemma write_records:
  "foldl (\<lambda>out i.
            write_serialized_block e out
              \<lparr>s_offset = htonll e (offset i),
               s_length = htonl e (ucast (length_cb i)),
               s_uncompressed_length = htonl e (ucast (uncompressed_length i))\<rparr>) outf cb
     = outf @ concat (map index_record cb)"
  by (induction cb arbitrary: outf)
     (simp_all add: write_serialized_block_def write_bytes_def index_record_def
        mem32_htonl mem64_htonll)

lemma write_main_header:
  "write_header e outf ((main_header e c u)\<lparr>block_count := htonl e (of_nat n)\<rparr>)
     = outf @ index_header c n"
  by (simp add: write_header_def write_bytes_def main_header_def index_header_def
      mem32_htonl sqdelta_magic_def)

lemma write_block_list_bytes:
  "write_block_list e outf (main_header e c u) cb at_end =
     outf @ (if at_end then concat (map index_record cb) @ index_header c (length cb)
             else index_header c (length cb) @ concat (map index_record cb))"
  by (simp add: write_block_list_def Let_def write_records write_main_header)

lemma length_index_record: "length (index_record b) = 16"
  by (simp add: index_record_def be32_def be64_def)

lemma length_index_header: "length (index_header c n) = 16"
  by (simp add: index_header_def be32_def)

text \<open>
  Claim C8. \<open>write_block_list\<close>, given the header that \<open>main\<close> fills in, writes one
  16-byte record per descriptor, \<open>{offset u64, length u32, uncompressed_length u32}\<close>
  in big-endian order, and the 16-byte header \<open>{magic 0x5371CEB4, flags 0,
  compression, block_count}\<close> in big-endian order, on a machine of either byte order;
  \<open>block_count\<close> is the number of descriptors (as a \<open>u32\<close>: exactly that number below
  \<open>2^32\<close>). With \<open>at_end\<close> the header follows the records, as at the end of the
  expanded file; without it the header comes first, as at the start of the patch file.
\<close>

theorem write_block_list_layout:
  "write_block_list e outf (main_header e c u) cb at_end =
     outf @ (if at_end then concat (map index_record cb) @ index_header c (length cb)
             else index_header c (length cb) @ concat (map index_record cb))
   \<and> length (index_record b) = 16 \<and> length (index_header c n) = 16
   \<and> be_value (be32 x) = unat x \<and> be_value (be64 y) = unat y
   \<and> (length cb < 2 ^ 32 \<longrightarrow> unat (of_nat (length cb) :: uint32_t) = length cb)
   \<and> patch_file_head e u c cb = index_header c (length cb) @ concat (map index_record cb)
   \<and> (expanded_file ev e u img cb c bs = Inr (file, cb') \<longrightarrow>
        (\<exists>regions. file = regions @ concat (map index_record cb') @ index_header c (length cb')))"
proof -
  have "unat (of_nat (length cb) :: uint32_t) = length cb" if "length cb < 2 ^ 32"
    using that by (simp add: unat_of_nat)
  moreover have "\<exists>regions. file = regions @ concat (map index_record cb') @ index_header c (length cb')"
    if "expanded_file ev e u img cb c bs = Inr (file, cb')"
    using that
    by (auto simp: expanded_file_def write_block_list_bytes split: prod.splits option.splits)
  ultimately show ?thesis
    by (simp add: write_block_list_bytes length_index_record length_index_header
        be_value_be32 be_value_be64 patch_file_head_def)
qed

theorem write_block_list_layout_witness:
  "write_block_list LittleEndian [] (main_header LittleEndian LZOCompressor example_header)
     index_blocks True =
     [0, 0, 0, 0, 0, 0, 0, 96, 0, 0, 0, 4, 0, 0, 0x10, 0,
      1, 2, 3, 4, 5, 6, 7, 8, 0x0A, 0x0B, 0x0C, 0x0D, 0, 0, 0, 1,
      0x53, 0x71, 0xCE, 0xB4, 0, 0, 0, 0, 0, 0, 0, 3, 0, 0, 0, 2]
   \<and> patch_file_head BigEndian example_header LZOCompressor index_blocks =
     [0x53, 0x71, 0xCE, 0xB4, 0, 0, 0, 0, 0, 0, 0, 3, 0, 0, 0, 2,
      0, 0, 0, 0, 0, 0, 0, 96, 0, 0, 0, 4, 0, 0, 0x10, 0,
      1, 2, 3, 4, 5, 6, 7, 8, 0x0A, 0x0B, 0x0C, 0x0D, 0, 0, 0, 1]"
  using write_block_list_layout [of LittleEndian "[]" LZOCompressor example_header index_blocks True]
    write_block_list_layout [of BigEndian "[]" LZOCompressor example_header index_blocks True]
  by (simp add: index_blocks_def index_record_def index_header_def be32_def be64_def
      get_compression_value_def compression_lzo_def)

end
